theory Spec2Isabelle
  imports Main
begin

section \<open>The world outside the repository\<close>

text \<open>
  The three source files orchestrate a vector store (ChromaDB), an embedding provider, a
  text splitter and a hosted language model. None of them is code of the repository, so
  their answers are parameters of the model: an environment \<open>env\<close> says, for every
  external call, whether it raises and what it returns. Every external call that is made
  is appended to the state's list \<open>calls\<close>, whether it raises or not, so that a theorem
  can say which calls a function makes. Console output (\<open>print\<close>) is not modelled.
\<close>

datatype exn = Exception string

datatype call =
    OpenStore string string
  | Count string
  | ReadFile string
  | Add string "string list" "string list"
  | Query string string nat
  | NewModel string
  | Generate string

type_synonym entry = "string \<times> string"

record env =
  fault :: "call \<Rightarrow> exn option"
  file_text :: "string \<Rightarrow> string"
  split_text :: "string \<Rightarrow> nat \<Rightarrow> nat \<Rightarrow> string list"
  nearest :: "entry list \<Rightarrow> string \<Rightarrow> nat \<Rightarrow> string list list option"
  response_text :: "string \<Rightarrow> string"

text \<open>
  \<open>fault E c = Some e\<close>: the external call \<open>c\<close> raises \<open>e\<close> (a subclass of Python's
  \<open>Exception\<close>). \<open>file_text E p\<close> is the content of the file at path \<open>p\<close>;
  \<open>split_text E\<close> is \<open>RecursiveCharacterTextSplitter.split_text\<close>; \<open>nearest E es q n\<close>
  is the field \<open>results['documents']\<close> of \<open>collection.query\<close> on a collection holding the
  entries \<open>es\<close>; \<open>response_text E p\<close> is \<open>response.text\<close> of the model for prompt \<open>p\<close>.
\<close>

section \<open>app.py: module state\<close>

text \<open>
  The globals \<open>_chroma_collection\<close> and \<open>_gemini_model\<close> (\<open>None\<close> until first use), the
  persistent store (collection name to its entries, each an id and a document, in
  insertion order) and the external calls made so far. A collection handle is the name of
  the collection it refers to.
\<close>

record app_state =
  chroma_collection :: "string option"
  gemini_model :: "string option"
  storage :: "(string \<times> entry list) list"
  calls :: "call list"

definition CHROMA_DB_PATH :: string where
  "CHROMA_DB_PATH = ''./chroma_db''"

definition COLLECTION_NAME :: string where
  "COLLECTION_NAME = ''pride_and_prejudice_knowledge''"

definition KNOWLEDGE_FILE :: string where
  "KNOWLEDGE_FILE = ''data/knowledgebase.txt''"

definition CHUNK_SIZE :: nat where
  "CHUNK_SIZE = 700"

definition CHUNK_OVERLAP :: nat where
  "CHUNK_OVERLAP = 70"

definition N_RESULTS_RETRIEVAL :: nat where
  "N_RESULTS_RETRIEVAL = 10"

definition GEMINI_MODEL :: string where
  "GEMINI_MODEL = ''gemini-1.5-flash''"

subsection \<open>Exceptions and external calls\<close>

text \<open>
  A computation returns \<open>Inl e\<close> when it raises \<open>e\<close>, together with the state at that
  moment (what was written before the raise stays written). \<open>and_then\<close> is sequencing:
  the second computation runs only when the first returned.
\<close>

type_synonym 'a comp = "app_state \<Rightarrow> (exn + 'a) \<times> app_state"

definition and_then :: "'a comp \<Rightarrow> ('a \<Rightarrow> 'b comp) \<Rightarrow> 'b comp" where
  "and_then m f s = (case m s of (Inl e, s') \<Rightarrow> (Inl e, s') | (Inr a, s') \<Rightarrow> f a s')"

definition external :: "env \<Rightarrow> call \<Rightarrow> unit comp" where
  "external E c s =
     (case fault E c of Some e \<Rightarrow> Inl e | None \<Rightarrow> Inr (), s\<lparr>calls := calls s @ [c]\<rparr>)"

subsection \<open>The vector store\<close>

definition entries_of :: "app_state \<Rightarrow> string \<Rightarrow> entry list" where
  "entries_of s c = (case map_of (storage s) c of None \<Rightarrow> [] | Some es \<Rightarrow> es)"

text \<open>\<open>PersistentClient(path)\<close> followed by \<open>client.get_or_create_collection(name)\<close>.\<close>

definition get_or_create_collection :: "env \<Rightarrow> string \<Rightarrow> string \<Rightarrow> string comp" where
  "get_or_create_collection E path name =
     and_then (external E (OpenStore path name)) (\<lambda>_ s.
       (Inr name,
        case map_of (storage s) name of
          None \<Rightarrow> s\<lparr>storage := storage s @ [(name, [])]\<rparr>
        | Some _ \<Rightarrow> s))"

text \<open>\<open>collection.count()\<close>.\<close>

definition collection_count :: "env \<Rightarrow> string \<Rightarrow> nat comp" where
  "collection_count E c =
     and_then (external E (Count c)) (\<lambda>_ s. (Inr (length (entries_of s c)), s))"

text \<open>
  \<open>collection.add(documents, ids)\<close>: the store refuses a batch that names an id twice,
  and skips an id it already holds.
\<close>

definition collection_add :: "env \<Rightarrow> string \<Rightarrow> string list \<Rightarrow> string list \<Rightarrow> unit comp" where
  "collection_add E c documents ids =
     and_then (external E (Add c documents ids)) (\<lambda>_ s.
       if \<not> distinct ids then (Inl (Exception ''DuplicateIDError''), s)
       else
         (Inr (),
          s\<lparr>storage :=
              map (\<lambda>(n, es).
                     if n = c
                     then (n, es @ filter (\<lambda>e. fst e \<notin> fst ` set es) (zip ids documents))
                     else (n, es))
                  (storage s)\<rparr>))"

text \<open>\<open>collection.query(query_texts=[query], n_results=n)['documents']\<close>: reads only.\<close>

definition collection_query ::
  "env \<Rightarrow> string \<Rightarrow> string \<Rightarrow> nat \<Rightarrow> string list list option comp" where
  "collection_query E c query n =
     and_then (external E (Query c query n)) (\<lambda>_ s.
       (Inr (nearest E (entries_of s c) query n), s))"

subsection \<open>Python's \<open>str(i)\<close> and \<open>sep.join(xs)\<close>\<close>

definition digit :: "nat \<Rightarrow> char" where
  "digit d = char_of (48 + d)"

function str_nat :: "nat \<Rightarrow> string" where
  "str_nat n = (if n < 10 then [digit n] else str_nat (n div 10) @ [digit (n mod 10)])"
  by pat_completeness auto
termination
  by (relation "measure (\<lambda>n. n)") auto

declare str_nat.simps [simp del]

fun join :: "string \<Rightarrow> string list \<Rightarrow> string" where
  "join sep [] = []"
| "join sep [x] = x"
| "join sep (x # y # ys) = x @ sep @ join sep (y # ys)"

subsection \<open>load_and_chunk_document, get_chroma_collection\<close>

definition load_and_chunk_document :: "env \<Rightarrow> string \<Rightarrow> nat \<Rightarrow> nat \<Rightarrow> string list comp" where
  "load_and_chunk_document E file_path chunk_size chunk_overlap =
     and_then (external E (ReadFile file_path)) (\<lambda>_ s.
       (Inr (split_text E (file_text E file_path) chunk_size chunk_overlap), s))"

definition doc_id :: "nat \<Rightarrow> string" where
  "doc_id i = ''doc_'' @ str_nat i"

text \<open>
  Lines 67 to 80 of app.py, the indexing step of \<open>get_chroma_collection\<close>: the documents
  are loaded and added only when the collection counts zero entries; otherwise the
  collection is counted once more, for the message that is printed.
\<close>

definition index_step :: "env \<Rightarrow> string \<Rightarrow> unit comp" where
  "index_step E collection =
     and_then (collection_count E collection) (\<lambda>n.
       if n = 0 then
         and_then (load_and_chunk_document E KNOWLEDGE_FILE CHUNK_SIZE CHUNK_OVERLAP)
           (\<lambda>document_chunks.
              if document_chunks \<noteq> [] then
                collection_add E collection document_chunks
                  (map doc_id [0 ..< length document_chunks])
              else (\<lambda>s. (Inr (), s)))
       else
         and_then (collection_count E collection) (\<lambda>_ s. (Inr (), s)))"

definition get_chroma_collection :: "env \<Rightarrow> string comp" where
  "get_chroma_collection E s =
     (case chroma_collection s of
        Some c \<Rightarrow> (Inr c, s)
      | None \<Rightarrow>
          and_then (get_or_create_collection E CHROMA_DB_PATH COLLECTION_NAME)
            (\<lambda>collection.
               and_then (index_step E collection) (\<lambda>_ s'.
                 (Inr collection, s'\<lparr>chroma_collection := Some collection\<rparr>))) s)"

subsection \<open>retrieve_relevant_documents, get_gemini_model, ask_rag_question\<close>

definition retrieve_relevant_documents ::
  "env \<Rightarrow> string \<Rightarrow> string \<Rightarrow> nat \<Rightarrow> string list comp" where
  "retrieve_relevant_documents E query collection n_results =
     and_then (collection_query E collection query n_results) (\<lambda>documents s.
       (Inr (case documents of
               None \<Rightarrow> []
             | Some [] \<Rightarrow> []
             | Some (d # _) \<Rightarrow> d), s))"

definition get_gemini_model :: "env \<Rightarrow> string comp" where
  "get_gemini_model E s =
     (case gemini_model s of
        Some m \<Rightarrow> (Inr m, s)
      | None \<Rightarrow>
          and_then (external E (NewModel GEMINI_MODEL)) (\<lambda>_ s'.
            (Inr GEMINI_MODEL, s'\<lparr>gemini_model := Some GEMINI_MODEL\<rparr>)) s)"

text \<open>The variable \<open>context\<close> of line 125.\<close>

definition context_of :: "string list \<Rightarrow> string" where
  "context_of retrieved_docs =
     (if retrieved_docs \<noteq> [] then join ''\<newline>'' retrieved_docs else '''')"

definition NO_CONTEXT :: string where
  "NO_CONTEXT = ''No specific context was provided from the knowledge base.''"

text \<open>The expression in the context slot of the template, line 136.\<close>

definition context_slot :: "string \<Rightarrow> string" where
  "context_slot context = (if context \<noteq> '''' then context else NO_CONTEXT)"

definition CANNOT_FIND :: string where
  "CANNOT_FIND = ''I cannot find the answer to that question in the provided information.''"

definition prompt_head :: string where
  "prompt_head =
     ''\<newline>    You are an AI assistant tasked with answering questions based on the provided text.'' @
     ''\<newline>    Please use the context below to answer the question thoroughly and accurately.'' @
     ''\<newline>    If the answer is not available or cannot be reasonably inferred from the provided context,'' @
     ''\<newline>    you must state clearly and concisely: '' @ [CHR 0x22] @ CANNOT_FIND @ [CHR 0x22] @
     ''\<newline>    Do not introduce any information that is not present in the context.'' @
     ''\<newline>\<newline>    Context:\<newline>    ''"

definition make_prompt :: "string \<Rightarrow> string \<Rightarrow> string" where
  "make_prompt context query =
     prompt_head @ context_slot context @
     ''\<newline>\<newline>    Question: '' @ query @
     ''\<newline>\<newline>    Answer:\<newline>    ''"

definition APOLOGY :: string where
  "APOLOGY = ''Sorry, I encountered an error while generating the response.''"

text \<open>
  \<open>model.generate_content(prompt, ...)\<close> and the read of \<open>response.text\<close> both stand
  inside the \<open>try\<close> of lines 147 to 157, as the one external call \<open>Generate prompt\<close>.
\<close>

definition ask_rag_question :: "env \<Rightarrow> string \<Rightarrow> string comp" where
  "ask_rag_question E query =
     and_then (get_chroma_collection E) (\<lambda>collection.
       and_then (get_gemini_model E) (\<lambda>model.
         and_then (retrieve_relevant_documents E query collection N_RESULTS_RETRIEVAL)
           (\<lambda>retrieved_docs s.
              let context = context_of retrieved_docs;
                  prompt = make_prompt context query
              in case external E (Generate prompt) s of
                   (Inr _, s') \<Rightarrow> (Inr (response_text E prompt), s')
                 | (Inl e, s') \<Rightarrow> (Inr APOLOGY, s'))))"

section \<open>api_server.py\<close>

text \<open>
  The module state of the server: the flag \<open>rag_system_ready\<close>, the lock
  \<open>rag_init_lock\<close>, the threads started with target \<open>initialize_rag_system\<close>, and the
  state of app.py. A \<open>threading.Lock\<close> has at most one holder, so the lock is modelled by
  what its holder is about to do: \<open>None\<close> when it is free (\<open>locked()\<close> is false), and
  otherwise the place in the \<open>with\<close> block of lines 17 to 29 where the holding thread
  stands. Threads that have been started and are not yet inside the block are counted in
  \<open>waiting\<close>, threads that have returned in \<open>finished\<close>. The field \<open>attempts\<close> is a
  history variable: the number of times the \<open>try\<close> block of line 20 has been entered.
  \<open>exit_code\<close> is set by \<open>os._exit\<close>; a process that has exited takes no further step.
\<close>

datatype position =
    AtTest
  | AtCall
  | AtSet
  | AtRelease

text \<open>
  \<open>AtTest\<close>: lock acquired, before the test \<open>if not rag_system_ready\<close> of line 18.
  \<open>AtCall\<close>: the test succeeded, before \<open>get_chroma_collection()\<close> of line 23.
  \<open>AtSet\<close>: the call returned, before \<open>rag_system_ready = True\<close> of line 24.
  \<open>AtRelease\<close>: about to leave the \<open>with\<close> block.
\<close>

record server =
  rag_system_ready :: bool
  rag_init_lock :: "position option"
  waiting :: nat
  finished :: nat
  attempts :: nat
  exit_code :: "nat option"
  app :: app_state

subsection \<open>initialize_rag_system, one step of one thread at a time\<close>

text \<open>Line 17: a started thread enters the \<open>with\<close> block when the lock is free.\<close>

definition thread_acquire :: "server \<Rightarrow> server option" where
  "thread_acquire S =
     (if exit_code S = None \<and> 0 < waiting S \<and> rag_init_lock S = None
      then Some (S\<lparr>waiting := waiting S - 1, rag_init_lock := Some AtTest\<rparr>)
      else None)"

text \<open>
  Lines 18 to 29: the next step of the thread that holds the lock. \<open>except Exception\<close>
  catches whatever \<open>get_chroma_collection\<close> raises, and \<open>os._exit(1)\<close> ends the process.
\<close>

definition thread_advance :: "env \<Rightarrow> server \<Rightarrow> server option" where
  "thread_advance E S =
     (if exit_code S \<noteq> None then None
      else case rag_init_lock S of
        None \<Rightarrow> None
      | Some AtTest \<Rightarrow>
          Some (if \<not> rag_system_ready S
                then S\<lparr>rag_init_lock := Some AtCall, attempts := attempts S + 1\<rparr>
                else S\<lparr>rag_init_lock := Some AtRelease\<rparr>)
      | Some AtCall \<Rightarrow>
          (case get_chroma_collection E (app S) of
             (Inr _, a) \<Rightarrow> Some (S\<lparr>app := a, rag_init_lock := Some AtSet\<rparr>)
           | (Inl _, a) \<Rightarrow> Some (S\<lparr>app := a, exit_code := Some 1\<rparr>))
      | Some AtSet \<Rightarrow> Some (S\<lparr>rag_system_ready := True, rag_init_lock := Some AtRelease\<rparr>)
      | Some AtRelease \<Rightarrow> Some (S\<lparr>rag_init_lock := None, finished := finished S + 1\<rparr>))"

subsection \<open>Requests\<close>

text \<open>
  The two routes of the file. The body of a POST to /ask is not JSON, or a JSON object
  whose field \<open>query\<close> is missing (\<open>None\<close>) or a string. A response is a status code and
  the fields of the JSON object that \<open>jsonify\<close> builds.
\<close>

datatype ask_body = NotJson | JsonQuery "string option"

datatype request = GET_status | POST_ask ask_body

record response =
  status_code :: nat
  body :: "(string \<times> string) list"

text \<open>
  The \<open>before_request\<close> hook, lines 32 to 41: it returns a response, which ends the
  handling of the request, or \<open>None\<close>, and then the route's function runs.
\<close>

definition check_rag_status :: "server \<Rightarrow> response option \<times> server" where
  "check_rag_status S =
     (if \<not> rag_system_ready S then
        (Some \<lparr>status_code = 503,
               body = [(''message'', ''RAG system is initializing. Please try again in a moment.'')]\<rparr>,
         if rag_init_lock S = None then S\<lparr>waiting := waiting S + 1\<rparr> else S)
      else (None, S))"

text \<open>
  Lines 44 to 59. An exception that leaves \<open>ask_rag_question\<close> leaves \<open>ask\<close> too, and the
  framework answers 500.
\<close>

definition ask :: "env \<Rightarrow> ask_body \<Rightarrow> server \<Rightarrow> response \<times> server" where
  "ask E b S =
     (case b of
        NotJson \<Rightarrow> (\<lparr>status_code = 400, body = [(''error'', ''Request must be JSON'')]\<rparr>, S)
      | JsonQuery q \<Rightarrow>
          (case q of
             None \<Rightarrow>
               (\<lparr>status_code = 400, body = [(''error'', ''Missing 'query' parameter'')]\<rparr>, S)
           | Some query \<Rightarrow>
               if query = ''''
               then (\<lparr>status_code = 400, body = [(''error'', ''Missing 'query' parameter'')]\<rparr>, S)
               else
                 (case ask_rag_question E query (app S) of
                    (Inr answer, a) \<Rightarrow>
                      (\<lparr>status_code = 200, body = [(''answer'', answer)]\<rparr>, S\<lparr>app := a\<rparr>)
                  | (Inl _, a) \<Rightarrow> (\<lparr>status_code = 500, body = []\<rparr>, S\<lparr>app := a\<rparr>))))"

text \<open>Lines 61 to 67.\<close>

definition status :: "server \<Rightarrow> response" where
  "status S =
     (if rag_system_ready S
      then \<lparr>status_code = 200,
            body = [(''status'', ''ready''),
                    (''message'', ''RAG system is fully initialized and operational.'')]\<rparr>
      else \<lparr>status_code = 200,
            body = [(''status'', ''initializing''),
                    (''message'',
                     ''RAG system is currently loading knowledge base and embeddings. Please wait.'')]\<rparr>)"

text \<open>One request: the hook first, the route's function only when the hook returned \<open>None\<close>.\<close>

definition handle_request :: "env \<Rightarrow> request \<Rightarrow> server \<Rightarrow> response \<times> server" where
  "handle_request E req S =
     (case check_rag_status S of
        (Some resp, S') \<Rightarrow> (resp, S')
      | (None, S') \<Rightarrow>
          (case req of
             GET_status \<Rightarrow> (status S', S')
           | POST_ask b \<Rightarrow> ask E b S'))"

subsection \<open>The running process\<close>

text \<open>
  A step of the process is a step of one of its threads, or the handling of one request,
  under some environment. \<open>started n a\<close> is the process with \<open>n\<close> initialization threads
  started and none yet inside the \<open>with\<close> block; line 71 starts the first one.
\<close>

inductive step :: "server \<Rightarrow> server \<Rightarrow> bool" where
  acquire: "thread_acquire S = Some S' \<Longrightarrow> step S S'"
| advance: "thread_advance E S = Some S' \<Longrightarrow> step S S'"
| request: "exit_code S = None \<Longrightarrow> handle_request E req S = (resp, S') \<Longrightarrow> step S S'"

definition started :: "nat \<Rightarrow> app_state \<Rightarrow> server" where
  "started n a =
     \<lparr>rag_system_ready = False, rag_init_lock = None, waiting = n, finished = 0,
      attempts = 0, exit_code = None, app = a\<rparr>"

section \<open>Properties of app.py\<close>

definition calls_since :: "app_state \<Rightarrow> app_state \<Rightarrow> call list" where
  "calls_since s s' = drop (length (calls s)) (calls s')"

definition is_generate :: "call \<Rightarrow> bool" where
  "is_generate c = (case c of Generate _ \<Rightarrow> True | _ \<Rightarrow> False)"

lemma and_then_cases:
  "and_then m f s = (r, s') \<Longrightarrow>
     (\<exists>e. m s = (Inl e, s') \<and> r = Inl e) \<or> (\<exists>a s1. m s = (Inr a, s1) \<and> f a s1 = (r, s'))"
  by (auto simp: and_then_def split: prod.splits sum.splits)

lemma and_then_Inl: "m s = (Inl e, s1) \<Longrightarrow> and_then m f s = (Inl e, s1)"
  by (simp add: and_then_def)

lemma and_then_Inr: "m s = (Inr a, s1) \<Longrightarrow> and_then m f s = f a s1"
  by (simp add: and_then_def)

lemma external_eq:
  "external E c s = (r, s') \<Longrightarrow>
     s' = s\<lparr>calls := calls s @ [c]\<rparr> \<and> r = (case fault E c of Some e \<Rightarrow> Inl e | None \<Rightarrow> Inr ())"
  by (auto simp: external_def)

text \<open>\<open>grows P s s'\<close>: \<open>s'\<close> has the calls of \<open>s\<close> followed by calls that all satisfy \<open>P\<close>.\<close>

definition grows :: "(call \<Rightarrow> bool) \<Rightarrow> app_state \<Rightarrow> app_state \<Rightarrow> bool" where
  "grows P s s' = (\<exists>cs. calls s' = calls s @ cs \<and> list_all P cs)"

lemma grows_refl: "grows P s s"
  by (simp add: grows_def)

lemma grows_trans: "grows P s s1 \<Longrightarrow> grows P s1 s2 \<Longrightarrow> grows P s s2"
  by (auto simp: grows_def)

lemma grows_and_then:
  assumes "and_then m f s = (r, s')"
    and "\<And>r1 s1. m s = (r1, s1) \<Longrightarrow> grows P s s1"
    and "\<And>a s1 r2 s2. f a s1 = (r2, s2) \<Longrightarrow> grows P s1 s2"
  shows "grows P s s'"
  using and_then_cases [OF assms(1)] assms(2,3) by (blast intro: grows_trans)

lemma grows_external: "external E c s = (r, s') \<Longrightarrow> P c \<Longrightarrow> grows P s s'"
  by (auto simp: external_def grows_def)

lemma grows_calls_upd: "grows P s (s\<lparr>storage := x\<rparr>)" "grows P s (s\<lparr>chroma_collection := y\<rparr>)"
  "grows P s (s\<lparr>gemini_model := z\<rparr>)"
  by (simp_all add: grows_def)



lemma grows_same: "calls s' = calls s \<Longrightarrow> grows P s s'"
  by (simp add: grows_def)

lemma goc_grows:
  "get_or_create_collection E p n s = (r, s') \<Longrightarrow> P (OpenStore p n) \<Longrightarrow> grows P s s'"
  unfolding get_or_create_collection_def
  by (erule grows_and_then) (auto intro: grows_external grows_same split: option.splits)

lemma count_grows:
  "collection_count E c s = (r, s') \<Longrightarrow> P (Count c) \<Longrightarrow> grows P s s'"
  unfolding collection_count_def
  by (erule grows_and_then) (auto intro: grows_external grows_same)

lemma add_grows:
  "collection_add E c ds ids s = (r, s') \<Longrightarrow> P (Add c ds ids) \<Longrightarrow> grows P s s'"
  unfolding collection_add_def
  by (erule grows_and_then) (auto intro: grows_external grows_same split: if_splits)

lemma query_grows:
  "collection_query E c q n s = (r, s') \<Longrightarrow> P (Query c q n) \<Longrightarrow> grows P s s'"
  unfolding collection_query_def
  by (erule grows_and_then) (auto intro: grows_external grows_same)

lemma load_grows:
  "load_and_chunk_document E f a b s = (r, s') \<Longrightarrow> P (ReadFile f) \<Longrightarrow> grows P s s'"
  unfolding load_and_chunk_document_def
  by (erule grows_and_then) (auto intro: grows_external grows_same)

definition is_indexing :: "call \<Rightarrow> bool" where
  "is_indexing c = (case c of OpenStore _ _ \<Rightarrow> True | Count _ \<Rightarrow> True | ReadFile _ \<Rightarrow> True
                     | Add _ _ _ \<Rightarrow> True | _ \<Rightarrow> False)"

lemma index_grows:
  assumes "index_step E c s = (r, s')" and "\<And>x. is_indexing x \<Longrightarrow> P x"
  shows "grows P s s'"
proof -
  have P: "P (Count c)" "P (ReadFile KNOWLEDGE_FILE)" "\<And>ds ids. P (Add c ds ids)"
    by (simp_all add: assms(2) is_indexing_def)
  show ?thesis
    using assms(1) unfolding index_step_def
    apply (rule grows_and_then)
     apply (erule count_grows [where P = P], rule P(1))
    apply (simp split: if_splits)
     apply (erule grows_and_then)
      apply (erule load_grows [where P = P], rule P(2))
     apply (simp split: if_splits)
      apply (erule add_grows [where P = P], rule P(3))
     apply (rule grows_same, simp)
    apply (erule grows_and_then)
     apply (erule count_grows [where P = P], rule P(1))
    apply (rule grows_same, auto)
    done
qed

lemma gcc_grows:
  assumes "get_chroma_collection E s = (r, s')" and "\<And>x. is_indexing x \<Longrightarrow> P x"
  shows "grows P s s'"
proof (cases "chroma_collection s")
  case (Some c)
  with assms(1) show ?thesis by (simp add: get_chroma_collection_def grows_def)
next
  case None
  with assms(1) have "and_then (get_or_create_collection E CHROMA_DB_PATH COLLECTION_NAME)
            (\<lambda>collection.
               and_then (index_step E collection) (\<lambda>_ s'.
                 (Inr collection, s'\<lparr>chroma_collection := Some collection\<rparr>))) s = (r, s')"
    by (simp add: get_chroma_collection_def)
  then show ?thesis
    apply (rule grows_and_then)
     apply (erule goc_grows, simp add: assms(2) is_indexing_def)
    apply (erule grows_and_then)
     apply (erule index_grows, simp add: assms(2))
    apply (rule grows_same, auto)
    done
qed

lemma model_grows:
  assumes "get_gemini_model E s = (r, s')" and "P (NewModel GEMINI_MODEL)"
  shows "grows P s s'"
proof (cases "gemini_model s")
  case (Some c)
  with assms(1) show ?thesis by (simp add: get_gemini_model_def grows_def)
next
  case None
  with assms(1) have "and_then (external E (NewModel GEMINI_MODEL)) (\<lambda>_ s'.
            (Inr GEMINI_MODEL, s'\<lparr>gemini_model := Some GEMINI_MODEL\<rparr>)) s = (r, s')"
    by (simp add: get_gemini_model_def)
  then show ?thesis
    by (rule grows_and_then) (auto intro: grows_external assms(2) grows_same)
qed

lemma retrieve_grows:
  "retrieve_relevant_documents E q c n s = (r, s') \<Longrightarrow> P (Query c q n) \<Longrightarrow> grows P s s'"
  unfolding retrieve_relevant_documents_def
  by (erule grows_and_then) (auto intro: query_grows grows_same)


definition not_generate :: "call \<Rightarrow> bool" where
  "not_generate c = (\<not> is_generate c)"

lemma ask_cases:
  assumes "ask_rag_question E q s = (r, s')"
  shows "(\<exists>e. r = Inl e \<and> grows not_generate s s') \<or>
         (\<exists>s3 docs. grows not_generate s s3 \<and>
            s' = s3\<lparr>calls := calls s3 @ [Generate (make_prompt (context_of docs) q)]\<rparr> \<and>
            r = (case fault E (Generate (make_prompt (context_of docs) q)) of
                   None \<Rightarrow> Inr (response_text E (make_prompt (context_of docs) q))
                 | Some _ \<Rightarrow> Inr APOLOGY))"
proof -
  have ng: "\<And>x. is_indexing x \<Longrightarrow> not_generate x" "not_generate (NewModel GEMINI_MODEL)"
    "\<And>c n. not_generate (Query c q n)"
    by (auto simp: is_indexing_def not_generate_def is_generate_def split: call.splits)
  from and_then_cases [OF assms [unfolded ask_rag_question_def]]
  show ?thesis
  proof (elim disjE exE conjE)
    fix e assume "get_chroma_collection E s = (Inl e, s')" "r = Inl e"
    then show ?thesis using gcc_grows [where P = not_generate] ng(1) by blast
  next
    fix c s1
    assume 1: "get_chroma_collection E s = (Inr c, s1)"
      and rest: "and_then (get_gemini_model E) (\<lambda>model.
         and_then (retrieve_relevant_documents E q c N_RESULTS_RETRIEVAL)
           (\<lambda>retrieved_docs s.
              let context = context_of retrieved_docs;
                  prompt = make_prompt context q
              in case external E (Generate prompt) s of
                   (Inr _, s') \<Rightarrow> (Inr (response_text E prompt), s')
                 | (Inl e, s') \<Rightarrow> (Inr APOLOGY, s'))) s1 = (r, s')"
    have g1: "grows not_generate s s1" using gcc_grows [where P = not_generate, OF 1] ng(1) by blast
    from and_then_cases [OF rest] show ?thesis
    proof (elim disjE exE conjE)
      fix e assume "get_gemini_model E s1 = (Inl e, s')" "r = Inl e"
      then show ?thesis using model_grows [where P = not_generate] ng(2) g1 by (blast intro: grows_trans)
    next
      fix m s2
      assume 2: "get_gemini_model E s1 = (Inr m, s2)"
        and rest2: "and_then (retrieve_relevant_documents E q c N_RESULTS_RETRIEVAL)
           (\<lambda>retrieved_docs s.
              let context = context_of retrieved_docs;
                  prompt = make_prompt context q
              in case external E (Generate prompt) s of
                   (Inr _, s') \<Rightarrow> (Inr (response_text E prompt), s')
                 | (Inl e, s') \<Rightarrow> (Inr APOLOGY, s')) s2 = (r, s')"
      have g2: "grows not_generate s s2"
        using model_grows [where P = not_generate, OF 2] ng(2) g1 by (blast intro: grows_trans)
      from and_then_cases [OF rest2] show ?thesis
      proof (elim disjE exE conjE)
        fix e assume "retrieve_relevant_documents E q c N_RESULTS_RETRIEVAL s2 = (Inl e, s')" "r = Inl e"
        then show ?thesis using retrieve_grows [where P = not_generate] ng(3) g2 by (blast intro: grows_trans)
      next
        fix docs s3
        assume 3: "retrieve_relevant_documents E q c N_RESULTS_RETRIEVAL s2 = (Inr docs, s3)"
          and fin: "(let context = context_of docs;
                  prompt = make_prompt context q
              in case external E (Generate prompt) s3 of
                   (Inr _, s') \<Rightarrow> (Inr (response_text E prompt), s')
                 | (Inl e, s') \<Rightarrow> (Inr APOLOGY, s')) = (r, s')"
        have g3: "grows not_generate s s3"
          using retrieve_grows [where P = not_generate, OF 3] ng(3) g2 by (blast intro: grows_trans)
        from fin have "s' = s3\<lparr>calls := calls s3 @ [Generate (make_prompt (context_of docs) q)]\<rparr> \<and>
            r = (case fault E (Generate (make_prompt (context_of docs) q)) of
                   None \<Rightarrow> Inr (response_text E (make_prompt (context_of docs) q))
                 | Some _ \<Rightarrow> Inr APOLOGY)"
          by (auto simp: Let_def external_def split: option.splits)
        with g3 show ?thesis by blast
      qed
    qed
  qed
qed

lemma grows_calls_since: "grows P s s' \<Longrightarrow> list_all P (calls_since s s')"
  by (auto simp: grows_def calls_since_def)

text \<open>
  Claim C2. Whenever the generation call that \<open>ask_rag_question\<close> makes raises, the
  function returns exactly the fixed apology string; an exception that leaves
  \<open>ask_rag_question\<close> was raised before any generation call was made, so a generation
  failure is never thrown to the caller; and with a generation adapter that fails on
  every prompt, the only string \<open>ask_rag_question\<close> can return is the apology.
\<close>

theorem generation_failure_gives_apology:
  "ask_rag_question E query s = (r, s') \<Longrightarrow>
     (\<forall>p e. Generate p \<in> set (calls_since s s') \<and> fault E (Generate p) = Some e \<longrightarrow> r = Inr APOLOGY) \<and>
     (\<forall>e p. r = Inl e \<longrightarrow> Generate p \<notin> set (calls_since s s')) \<and>
     ((\<forall>p. fault E (Generate p) \<noteq> None) \<longrightarrow> (\<forall>t. r = Inr t \<longrightarrow> t = APOLOGY))"
proof -
  assume run: "ask_rag_question E query s = (r, s')"
  from ask_cases [OF run] show ?thesis
  proof (elim disjE exE conjE)
    fix e assume r: "r = Inl e" and g: "grows not_generate s s'"
    have "\<And>p. Generate p \<notin> set (calls_since s s')"
      using grows_calls_since [OF g]
      by (auto simp: list_all_iff not_generate_def is_generate_def)
    with r show ?thesis by simp
  next
    fix s3 docs
    assume g: "grows not_generate s s3"
      and s': "s' = s3\<lparr>calls := calls s3 @ [Generate (make_prompt (context_of docs) query)]\<rparr>"
      and r: "r = (case fault E (Generate (make_prompt (context_of docs) query)) of
                   None \<Rightarrow> Inr (response_text E (make_prompt (context_of docs) query))
                 | Some _ \<Rightarrow> Inr APOLOGY)"
    from g obtain cs where cs: "calls s3 = calls s @ cs" "list_all not_generate cs"
      by (auto simp: grows_def)
    have since: "calls_since s s' = cs @ [Generate (make_prompt (context_of docs) query)]"
      using cs(1) s' by (simp add: calls_since_def)
    have only: "\<And>p. Generate p \<in> set (calls_since s s') \<Longrightarrow> p = make_prompt (context_of docs) query"
      using cs(2) unfolding since
      by (auto simp: list_all_iff not_generate_def is_generate_def)
    have a: "\<forall>p e. Generate p \<in> set (calls_since s s') \<and> fault E (Generate p) = Some e \<longrightarrow> r = Inr APOLOGY"
      using r only by (auto split: option.splits)
    have b: "\<forall>e p. r = Inl e \<longrightarrow> Generate p \<notin> set (calls_since s s')"
      using r by (auto split: option.splits)
    have c: "(\<forall>p. fault E (Generate p) \<noteq> None) \<longrightarrow> (\<forall>t. r = Inr t \<longrightarrow> t = APOLOGY)"
    proof (intro impI allI)
      fix t assume all: "\<forall>p. fault E (Generate p) \<noteq> None" and t: "r = Inr t"
      from all have "fault E (Generate (make_prompt (context_of docs) query)) \<noteq> None" by blast
      with r t show "t = APOLOGY" by (auto split: option.splits)
    qed
    from a b c show ?thesis by blast
  qed
qed


definition env_ok :: env where
  "env_ok = \<lparr>fault = (\<lambda>_. None),
            file_text = (\<lambda>_. ''Alice went to the market. Bob stayed home.''),
            split_text = (\<lambda>t _ _. if t = [] then [] else [t]),
            nearest = (\<lambda>es q n. Some [take n (map snd es)]),
            response_text = (\<lambda>p. ''market'')\<rparr>"

definition env_no_generation :: env where
  "env_no_generation =
     env_ok\<lparr>fault := (\<lambda>c. if is_generate c then Some (Exception ''quota'') else None)\<rparr>"

definition ready_state :: app_state where
  "ready_state =
     \<lparr>chroma_collection = Some COLLECTION_NAME, gemini_model = None,
      storage = [(COLLECTION_NAME, [(''doc_0'', ''Alice went to the market. Bob stayed home.'')])],
      calls = []\<rparr>"

definition alice_prompt :: string where
  "alice_prompt = make_prompt ''Alice went to the market. Bob stayed home.'' ''Where did Alice go?''"

theorem generation_failure_gives_apology_witness:
  "Generate alice_prompt \<in> set (calls_since ready_state
       (snd (ask_rag_question env_no_generation ''Where did Alice go?'' ready_state))) \<and>
   fault env_no_generation (Generate alice_prompt) = Some (Exception ''quota'') \<and>
   fst (ask_rag_question env_no_generation ''Where did Alice go?'' ready_state) = Inr APOLOGY"
proof -
  have run: "ask_rag_question env_no_generation ''Where did Alice go?'' ready_state =
      (fst (ask_rag_question env_no_generation ''Where did Alice go?'' ready_state),
       snd (ask_rag_question env_no_generation ''Where did Alice go?'' ready_state))"
    by simp
  have made: "Generate alice_prompt \<in> set (calls_since ready_state
       (snd (ask_rag_question env_no_generation ''Where did Alice go?'' ready_state)))"
    by code_simp
  have fails: "fault env_no_generation (Generate alice_prompt) = Some (Exception ''quota'')"
    by (simp add: env_no_generation_def is_generate_def)
  from generation_failure_gives_apology [OF run] made fails
  have "fst (ask_rag_question env_no_generation ''Where did Alice go?'' ready_state) = Inr APOLOGY"
    by blast
  with made fails show ?thesis by blast
qed

definition retrieved :: "env \<Rightarrow> app_state \<Rightarrow> string \<Rightarrow> string \<Rightarrow> string list" where
  "retrieved E s c query =
     (case nearest E (entries_of s c) query N_RESULTS_RETRIEVAL of
        None \<Rightarrow> [] | Some [] \<Rightarrow> [] | Some (d # _) \<Rightarrow> d)"

lemmas ask_defs = ask_rag_question_def get_chroma_collection_def and_then_def get_gemini_model_def
  retrieve_relevant_documents_def collection_query_def external_def Let_def

lemma entries_of_upd [simp]:
  "entries_of (s\<lparr>calls := x\<rparr>) c = entries_of s c"
  "entries_of (s\<lparr>gemini_model := y\<rparr>) c = entries_of s c"
  "entries_of (s\<lparr>chroma_collection := z\<rparr>) c = entries_of s c"
  by (simp_all add: entries_of_def)

lemma str_nat_nonempty: "str_nat n \<noteq> []"
  by (subst str_nat.simps) simp

lemma digit_inj: "a < 10 \<Longrightarrow> b < 10 \<Longrightarrow> digit a = digit b \<Longrightarrow> a = b"
  by (simp add: digit_def char_of_eq_iff take_bit_nat_eq_self)

lemma str_nat_inj: "str_nat m = str_nat n \<Longrightarrow> m = n"
proof (induction m arbitrary: n rule: str_nat.induct)
  case (1 m)
  show ?case
  proof (cases "m < 10")
    case small_m: True
    show ?thesis
    proof (cases "n < 10")
      case True
      with small_m "1.prems" show ?thesis
        by (simp add: str_nat.simps [of m] str_nat.simps [of n] digit_inj)
    next
      case False
      with small_m "1.prems" show ?thesis
        by (simp add: str_nat.simps [of m] str_nat.simps [of n] str_nat_nonempty str_nat_nonempty [symmetric])
    qed
  next
    case big_m: False
    show ?thesis
    proof (cases "n < 10")
      case True
      with big_m "1.prems" show ?thesis
        by (simp add: str_nat.simps [of m] str_nat.simps [of n] str_nat_nonempty str_nat_nonempty [symmetric])
    next
      case False
      with big_m "1.prems"
      have eq: "str_nat (m div 10) = str_nat (n div 10)" "digit (m mod 10) = digit (n mod 10)"
        by (simp_all add: str_nat.simps [of m] str_nat.simps [of n])
      from "1.IH" [OF big_m eq(1)] have d: "m div 10 = n div 10" .
      from eq(2) have r: "m mod 10 = n mod 10" by (auto intro: digit_inj)
      from d r show ?thesis by (metis div_mult_mod_eq)
    qed
  qed
qed

lemma doc_id_inj: "inj doc_id"
  by (auto simp: inj_on_def doc_id_def dest: str_nat_inj)

lemma distinct_doc_ids: "distinct (map doc_id [0 ..< n])"
  by (simp add: distinct_map inj_on_subset [OF doc_id_inj])


definition chunks_of :: "env \<Rightarrow> string list" where
  "chunks_of E = split_text E (file_text E KNOWLEDGE_FILE) CHUNK_SIZE CHUNK_OVERLAP"

lemmas index_defs = index_step_def collection_count_def load_and_chunk_document_def
  collection_add_def and_then_def external_def

lemma map_of_update_entries:
  "map_of (map (\<lambda>(n, es). if n = c then (n, f es) else (n, es)) xs) c = map_option f (map_of xs c)"
  by (induction xs) auto

lemma index_step_skip:
  assumes "entries_of s c \<noteq> []" and "index_step E c s = (r, s')"
  shows "storage s' = storage s" and "set (calls_since s s') \<subseteq> {Count c}"
    and "chroma_collection s' = chroma_collection s" and "gemini_model s' = gemini_model s"
  using assms
  by (auto simp: index_defs calls_since_def split: option.splits if_splits)

lemma index_step_add:
  assumes "index_step E c s = (r, s')" and "Add c' ds ids \<in> set (calls_since s s')"
  shows "entries_of s c = [] \<and> c' = c \<and> ds = chunks_of E \<and> ds \<noteq> [] \<and>
         ids = map doc_id [0 ..< length ds]"
  using assms
  by (auto simp: index_defs calls_since_def chunks_of_def split: option.splits if_splits)

lemma index_step_read:
  assumes "index_step E c s = (r, s')" and "ReadFile f \<in> set (calls_since s s')"
  shows "entries_of s c = []"
  using assms
  by (auto simp: index_defs calls_since_def split: option.splits if_splits)

lemma index_step_fill:
  assumes "map_of (storage s) c = Some []" and "index_step E c s = (Inr (), s')"
  shows "entries_of s' c = zip (map doc_id [0 ..< length (chunks_of E)]) (chunks_of E)"
  using assms
  by (auto simp: index_defs chunks_of_def entries_of_def map_of_update_entries distinct_doc_ids
           split: option.splits if_splits)


lemmas gcc_defs = get_chroma_collection_def get_or_create_collection_def index_defs

lemma gcc_keeps_model:
  "get_chroma_collection E s = (r, s') \<Longrightarrow> gemini_model s' = gemini_model s"
  by (auto simp: gcc_defs split: option.splits if_splits)

lemma gcc_sets_cache:
  "get_chroma_collection E s = (Inr c, s') \<Longrightarrow> chroma_collection s' = Some c"
  by (auto simp: gcc_defs split: option.splits if_splits)

lemma gcc_cached:
  "chroma_collection s = Some c \<Longrightarrow> get_chroma_collection E s = (Inr c, s)"
  by (simp add: get_chroma_collection_def)

lemma model_cached:
  "gemini_model s = Some m \<Longrightarrow> get_gemini_model E s = (Inr m, s)"
  by (simp add: get_gemini_model_def)

lemma model_sets_cache:
  "get_gemini_model E s = (Inr m, s') \<Longrightarrow> gemini_model s' = Some m"
  by (auto simp: get_gemini_model_def and_then_def external_def split: option.splits)

lemma model_keeps_collection:
  "get_gemini_model E s = (r, s') \<Longrightarrow> chroma_collection s' = chroma_collection s \<and> storage s' = storage s"
  by (auto simp: get_gemini_model_def and_then_def external_def split: option.splits)


definition steady :: "(app_state \<Rightarrow> bool) \<Rightarrow> (call \<Rightarrow> bool) \<Rightarrow> app_state \<Rightarrow> app_state \<Rightarrow> bool" where
  "steady I P s s' = (I s \<longrightarrow> I s' \<and> grows P s s')"

lemma steady_trans: "steady I P a b \<Longrightarrow> steady I P b c \<Longrightarrow> steady I P a c"
  by (auto simp: steady_def intro: grows_trans)

lemma steady_and_then:
  assumes "and_then m f s = (r, s')"
    and "\<And>r1 s1. m s = (r1, s1) \<Longrightarrow> steady I P s s1"
    and "\<And>a s1 r2 s2. f a s1 = (r2, s2) \<Longrightarrow> steady I P s1 s2"
  shows "steady I P s s'"
  using and_then_cases [OF assms(1)] assms(2,3) by (blast intro: steady_trans)

definition holds_collection :: "string \<Rightarrow> (string \<times> entry list) list \<Rightarrow> app_state \<Rightarrow> bool" where
  "holds_collection c st s = (chroma_collection s = Some c \<and> storage s = st)"

definition holds_model :: "string \<Rightarrow> app_state \<Rightarrow> bool" where
  "holds_model m s = (gemini_model s = Some m)"

definition is_new_model :: "call \<Rightarrow> bool" where
  "is_new_model c = (case c of NewModel _ \<Rightarrow> True | _ \<Rightarrow> False)"

definition not_indexing :: "call \<Rightarrow> bool" where
  "not_indexing c = (\<not> is_indexing c)"

definition not_new_model :: "call \<Rightarrow> bool" where
  "not_new_model c = (\<not> is_new_model c)"

lemma gcc_steady_collection:
  "get_chroma_collection E s = (r, s') \<Longrightarrow> steady (holds_collection c st) not_indexing s s'"
  by (auto simp: steady_def holds_collection_def get_chroma_collection_def grows_def)

lemma gcc_steady_model:
  assumes "get_chroma_collection E s = (r, s')"
  shows "steady (holds_model m) not_new_model s s'"
proof -
  have "grows not_new_model s s'"
    by (rule gcc_grows [OF assms])
       (auto simp: is_indexing_def not_new_model_def is_new_model_def split: call.splits)
  with gcc_keeps_model [OF assms] show ?thesis
    by (simp add: steady_def holds_model_def)
qed

lemma model_steady_collection:
  assumes "get_gemini_model E s = (r, s')"
  shows "steady (holds_collection c st) not_indexing s s'"
proof -
  have "grows not_indexing s s'"
    by (rule model_grows [OF assms]) (simp add: not_indexing_def is_indexing_def)
  with model_keeps_collection [OF assms] show ?thesis
    by (simp add: steady_def holds_collection_def)
qed

lemma model_steady_model:
  "get_gemini_model E s = (r, s') \<Longrightarrow> steady (holds_model m) not_new_model s s'"
  by (auto simp: steady_def holds_model_def get_gemini_model_def grows_def)

lemma retrieve_keeps:
  "retrieve_relevant_documents E q c n s = (r, s') \<Longrightarrow>
     chroma_collection s' = chroma_collection s \<and> storage s' = storage s \<and>
     gemini_model s' = gemini_model s"
  by (auto simp: retrieve_relevant_documents_def collection_query_def and_then_def external_def
           split: option.splits)

lemma retrieve_steady_collection:
  assumes "retrieve_relevant_documents E q c' n s = (r, s')"
  shows "steady (holds_collection c st) not_indexing s s'"
proof -
  have "grows not_indexing s s'"
    by (rule retrieve_grows [OF assms]) (simp add: not_indexing_def is_indexing_def)
  with retrieve_keeps [OF assms] show ?thesis
    by (simp add: steady_def holds_collection_def)
qed

lemma retrieve_steady_model:
  assumes "retrieve_relevant_documents E q c' n s = (r, s')"
  shows "steady (holds_model m) not_new_model s s'"
proof -
  have "grows not_new_model s s'"
    by (rule retrieve_grows [OF assms]) (simp add: not_new_model_def is_new_model_def)
  with retrieve_keeps [OF assms] show ?thesis
    by (simp add: steady_def holds_model_def)
qed

lemma generate_steady:
  assumes "(let context = context_of docs; prompt = make_prompt context q
            in case external E (Generate prompt) s of
                 (Inr _, s') \<Rightarrow> (Inr (response_text E prompt), s')
               | (Inl e, s') \<Rightarrow> (Inr APOLOGY, s')) = (r, s')"
  shows "steady (holds_collection c st) not_indexing s s'"
    and "steady (holds_model m) not_new_model s s'"
  using assms
  by (auto simp: Let_def external_def steady_def holds_collection_def holds_model_def grows_def
       not_indexing_def is_indexing_def not_new_model_def is_new_model_def split: option.splits)

lemma ask_steady_collection:
  assumes "ask_rag_question E q s = (r, s')"
  shows "steady (holds_collection c st) not_indexing s s'"
  using assms unfolding ask_rag_question_def
  apply (rule steady_and_then)
   apply (erule gcc_steady_collection)
  apply (erule steady_and_then)
   apply (erule model_steady_collection)
  apply (erule steady_and_then)
   apply (erule retrieve_steady_collection)
  apply (erule generate_steady(1))
  done

lemma ask_steady_model:
  assumes "ask_rag_question E q s = (r, s')"
  shows "steady (holds_model m) not_new_model s s'"
  using assms unfolding ask_rag_question_def
  apply (rule steady_and_then)
   apply (erule gcc_steady_model)
  apply (erule steady_and_then)
   apply (erule model_steady_model)
  apply (erule steady_and_then)
   apply (erule retrieve_steady_model)
  apply (erule generate_steady(2))
  done


datatype op = GetCollection | GetModel | Ask string

fun run_op :: "env \<Rightarrow> op \<Rightarrow> app_state \<Rightarrow> app_state" where
  "run_op E GetCollection s = snd (get_chroma_collection E s)"
| "run_op E GetModel s = snd (get_gemini_model E s)"
| "run_op E (Ask query) s = snd (ask_rag_question E query s)"

fun run_ops :: "(env \<times> op) list \<Rightarrow> app_state \<Rightarrow> app_state" where
  "run_ops [] s = s"
| "run_ops ((E, x) # xs) s = run_ops xs (run_op E x s)"

lemma run_op_steady_collection: "steady (holds_collection c st) not_indexing s (run_op E x s)"
  by (cases x)
     (simp_all add: gcc_steady_collection [OF surjective_pairing]
        model_steady_collection [OF surjective_pairing]
        ask_steady_collection [OF surjective_pairing])

lemma run_op_steady_model: "steady (holds_model m) not_new_model s (run_op E x s)"
  by (cases x)
     (simp_all add: gcc_steady_model [OF surjective_pairing]
        model_steady_model [OF surjective_pairing]
        ask_steady_model [OF surjective_pairing])

lemma steady_refl: "steady I P s s"
  by (simp add: steady_def grows_refl)

lemma run_ops_steady_collection: "steady (holds_collection c st) not_indexing s (run_ops ops s)"
proof (induction ops arbitrary: s)
  case Nil
  show ?case by (simp add: steady_refl)
next
  case (Cons a ops)
  obtain E x where a: "a = (E, x)" by (cases a)
  show ?case
    unfolding a run_ops.simps
    by (rule steady_trans [OF run_op_steady_collection Cons.IH])
qed

lemma run_ops_steady_model: "steady (holds_model m) not_new_model s (run_ops ops s)"
proof (induction ops arbitrary: s)
  case Nil
  show ?case by (simp add: steady_refl)
next
  case (Cons a ops)
  obtain E x where a: "a = (E, x)" by (cases a)
  show ?case
    unfolding a run_ops.simps
    by (rule steady_trans [OF run_op_steady_model Cons.IH])
qed

text \<open>
  Claim C9. After a successful call of \<open>get_chroma_collection\<close>, and any sequence of later
  calls into the module (under any environments), \<open>get_chroma_collection\<close> returns the
  same handle and leaves the state as it is, and none of the later calls opens the store,
  counts the collection, reads the knowledge file or adds documents; likewise, after
  \<open>get_gemini_model\<close> has returned a handle, every later call returns that handle and no
  model handle is created again.
\<close>

theorem cached_singletons:
  "(get_chroma_collection E s = (Inr c, s1) \<longrightarrow>
      get_chroma_collection E' (run_ops ops s1) = (Inr c, run_ops ops s1) \<and>
      (\<forall>x \<in> set (calls_since s1 (run_ops ops s1)). \<not> is_indexing x)) \<and>
   (get_gemini_model E s = (Inr m, s1) \<longrightarrow>
      get_gemini_model E' (run_ops ops s1) = (Inr m, run_ops ops s1) \<and>
      (\<forall>x \<in> set (calls_since s1 (run_ops ops s1)). \<not> is_new_model x))"
proof (intro conjI impI)
  assume a: "get_chroma_collection E s = (Inr c, s1)"
  have "holds_collection c (storage s1) s1"
    using gcc_sets_cache [OF a] by (simp add: holds_collection_def)
  with run_ops_steady_collection [of c "storage s1" s1 ops]
  have k: "holds_collection c (storage s1) (run_ops ops s1)"
    and g: "grows not_indexing s1 (run_ops ops s1)"
    by (simp_all add: steady_def)
  from k show "get_chroma_collection E' (run_ops ops s1) = (Inr c, run_ops ops s1)"
    by (simp add: gcc_cached holds_collection_def)
  from grows_calls_since [OF g]
  show "\<forall>x \<in> set (calls_since s1 (run_ops ops s1)). \<not> is_indexing x"
    by (simp add: list_all_iff not_indexing_def)
next
  assume a: "get_gemini_model E s = (Inr m, s1)"
  have "holds_model m s1"
    using model_sets_cache [OF a] by (simp add: holds_model_def)
  with run_ops_steady_model [of m s1 ops]
  have k: "holds_model m (run_ops ops s1)"
    and g: "grows not_new_model s1 (run_ops ops s1)"
    by (simp_all add: steady_def)
  from k show "get_gemini_model E' (run_ops ops s1) = (Inr m, run_ops ops s1)"
    by (simp add: model_cached holds_model_def)
  from grows_calls_since [OF g]
  show "\<forall>x \<in> set (calls_since s1 (run_ops ops s1)). \<not> is_new_model x"
    by (simp add: list_all_iff not_new_model_def)
qed

text \<open>
  Claim C10. On a ready system \<open>ask_rag_question\<close> leaves the store as it is: the only
  external calls it makes are the creation of the model handle, one nearest-neighbour
  query and one generation call; and after any sequence of calls into the module the
  store, and so the chunk count of the collection, is what initialization left.
\<close>

theorem answer_path_read_only:
  assumes "chroma_collection s = Some c"
  shows "storage (snd (ask_rag_question E query s)) = storage s \<and>
         set (calls_since s (snd (ask_rag_question E query s))) \<subseteq>
           {NewModel GEMINI_MODEL, Query c query N_RESULTS_RETRIEVAL,
            Generate (make_prompt (context_of (retrieved E s c query)) query)} \<and>
         storage (run_ops ops s) = storage s \<and>
         length (entries_of (run_ops ops s) c) = length (entries_of s c)"
proof -
  have 1: "storage (snd (ask_rag_question E query s)) = storage s"
    using assms by (auto simp: ask_defs split: option.splits)
  have 2: "set (calls_since s (snd (ask_rag_question E query s))) \<subseteq>
           {NewModel GEMINI_MODEL, Query c query N_RESULTS_RETRIEVAL,
            Generate (make_prompt (context_of (retrieved E s c query)) query)}"
    using assms by (auto simp: ask_defs retrieved_def calls_since_def split: option.splits)
  have "holds_collection c (storage s) s"
    using assms by (simp add: holds_collection_def)
  with run_ops_steady_collection [of c "storage s" s ops]
  have 3: "storage (run_ops ops s) = storage s"
    by (simp add: steady_def holds_collection_def)
  then have 4: "length (entries_of (run_ops ops s) c) = length (entries_of s c)"
    by (simp add: entries_of_def)
  from 1 2 3 4 show ?thesis by blast
qed

definition env_no_retrieval :: env where
  "env_no_retrieval =
     env_ok\<lparr>fault := (\<lambda>c. case c of Query _ _ _ \<Rightarrow> Some (Exception ''embedding provider unavailable'')
                             | _ \<Rightarrow> None)\<rparr>"

definition env_silent :: env where
  "env_silent = env_ok\<lparr>response_text := (\<lambda>_. '''')\<rparr>"

definition fresh_state :: app_state where
  "fresh_state = \<lparr>chroma_collection = None, gemini_model = None, storage = [], calls = []\<rparr>"

text \<open>
  Claim C1, as amended. Once the collection handle is cached (the system is ready) and the
  model handle exists or can be created, \<open>ask_rag_question\<close> does one of three things. If
  the retrieval query raises, that exception leaves \<open>ask_rag_question\<close>: there is no
  \<open>try\<close> around retrieval and no empty result is substituted. Otherwise it returns a
  string: the model's text for the prompt, unmodified (it may be empty), when generation
  succeeds, and the fixed apology string when generation raises.
\<close>

theorem ask_rag_question_result:
  assumes "chroma_collection s = Some c"
    and "gemini_model s \<noteq> None \<or> fault E (NewModel GEMINI_MODEL) = None"
  shows "fst (ask_rag_question E query s) =
     (case fault E (Query c query N_RESULTS_RETRIEVAL) of
        Some e \<Rightarrow> Inl e
      | None \<Rightarrow>
         (case fault E (Generate (make_prompt (context_of (retrieved E s c query)) query)) of
            None \<Rightarrow> Inr (response_text E (make_prompt (context_of (retrieved E s c query)) query))
          | Some _ \<Rightarrow> Inr APOLOGY))"
  using assms
  by (auto simp: ask_defs retrieved_def split: option.splits)

text \<open>The hypotheses of C1 hold for a ready state and an environment without faults.\<close>

theorem ask_rag_question_result_witness:
  "chroma_collection ready_state = Some COLLECTION_NAME \<and>
   fault env_ok (NewModel GEMINI_MODEL) = None \<and>
   fst (ask_rag_question env_ok ''Where did Alice go?'' ready_state) = Inr ''market''"
proof -
  have 1: "chroma_collection ready_state = Some COLLECTION_NAME"
    by (simp add: ready_state_def)
  have 2: "fault env_ok (NewModel GEMINI_MODEL) = None"
    by (simp add: env_ok_def)
  have "gemini_model ready_state \<noteq> None \<or> fault env_ok (NewModel GEMINI_MODEL) = None"
    using 2 by simp
  from ask_rag_question_result [OF 1 this, of "''Where did Alice go?''"]
  have "fst (ask_rag_question env_ok ''Where did Alice go?'' ready_state) = Inr ''market''"
    by (simp add: env_ok_def)
  with 1 2 show ?thesis by simp
qed

text \<open>
  Claim C1 as stated fails: on a ready system a failing retrieval query raises out of
  \<open>ask_rag_question\<close>, and a model that answers with the empty text makes it return the
  empty string.
\<close>

theorem ask_rag_question_raises_or_empty_counterexample:
  "fst (ask_rag_question env_no_retrieval ''Where did Alice go?'' ready_state) =
     Inl (Exception ''embedding provider unavailable'') \<and>
   fst (ask_rag_question env_silent ''Where did Alice go?'' ready_state) = Inr ''''"
  by code_simp

text \<open>
  Claim C4, as amended. With no retrieved documents the variable \<open>context\<close> is the empty
  string, and the context slot of the prompt holds the literal "No specific context was
  provided from the knowledge base."; with retrieved documents \<open>context\<close> is their texts
  joined by a newline, in the order retrieved, and the slot holds that join unless the join
  is empty, when it holds the literal; and on a ready system every prompt that
  \<open>ask_rag_question\<close> sends to the model is the template with that slot and the query.
\<close>

theorem prompt_context:
  "context_of [] = '''' \<and>
   context_slot (context_of []) = NO_CONTEXT \<and>
   (docs \<noteq> [] \<longrightarrow> context_of docs = join ''\<newline>'' docs) \<and>
   context_slot (context_of docs) =
     (if join ''\<newline>'' docs = '''' then NO_CONTEXT else join ''\<newline>'' docs) \<and>
   (chroma_collection s = Some c \<longrightarrow>
      (\<forall>p. Generate p \<in> set (calls_since s (snd (ask_rag_question E query s))) \<longrightarrow>
         p = prompt_head @ context_slot (context_of (retrieved E s c query)) @
             ''\<newline>\<newline>    Question: '' @ query @ ''\<newline>\<newline>    Answer:\<newline>    ''))"
proof (intro conjI impI allI)
  show "context_of [] = ''''" by (simp add: context_of_def)
  show "context_slot (context_of []) = NO_CONTEXT" by (simp add: context_of_def context_slot_def)
  show "context_of docs = join ''\<newline>'' docs" if "docs \<noteq> []"
    using that by (simp add: context_of_def)
  show "context_slot (context_of docs) =
     (if join ''\<newline>'' docs = '''' then NO_CONTEXT else join ''\<newline>'' docs)"
    by (cases docs) (simp_all add: context_of_def context_slot_def)
  fix p
  assume c: "chroma_collection s = Some c"
    and p: "Generate p \<in> set (calls_since s (snd (ask_rag_question E query s)))"
  from c p have "p = make_prompt (context_of (retrieved E s c query)) query"
    by (auto simp: ask_defs retrieved_def calls_since_def split: option.splits if_splits)
  then show "p = prompt_head @ context_slot (context_of (retrieved E s c query)) @
             ''\<newline>\<newline>    Question: '' @ query @ ''\<newline>\<newline>    Answer:\<newline>    ''"
    by (simp add: make_prompt_def)
qed

text \<open>
  Claim C4 as stated fails: for an empty retrieval result the variable \<open>context\<close> is not
  the literal; and a non-empty result whose join is empty gets the literal in the slot.
\<close>

theorem context_variable_counterexample:
  "context_of [] \<noteq> NO_CONTEXT \<and> context_slot (context_of ['''']) = NO_CONTEXT"
  by (simp add: context_of_def context_slot_def NO_CONTEXT_def)

text \<open>
  Claim C3. The indexing step of \<open>get_chroma_collection\<close> is idempotent. On a collection
  that is not empty it changes nothing in the store and calls nothing but \<open>count\<close>, so
  running it again leaves the chunk count of the first run. The file is read and
  \<open>add\<close> is called only when the count is zero, and then with the chunks of the
  knowledge file and the ids \<open>doc_0\<close>, \<open>doc_1\<close>, ... by position, which are distinct; a
  successful run on an empty collection leaves exactly these entries.
\<close>

theorem indexing_idempotent:
  assumes "index_step E c s = (r, s')"
  shows "(entries_of s c \<noteq> [] \<longrightarrow>
            storage s' = storage s \<and>
            set (calls_since s s') \<subseteq> {Count c} \<and>
            length (entries_of (snd (index_step E' c s')) c) = length (entries_of s' c)) \<and>
         (\<forall>c' ds ids. Add c' ds ids \<in> set (calls_since s s') \<longrightarrow>
            entries_of s c = [] \<and> c' = c \<and> ds = chunks_of E \<and>
            ids = map doc_id [0 ..< length ds] \<and> distinct ids) \<and>
         (\<forall>f. ReadFile f \<in> set (calls_since s s') \<longrightarrow> entries_of s c = []) \<and>
         (map_of (storage s) c = Some [] \<and> r = Inr () \<longrightarrow>
            entries_of s' c = zip (map doc_id [0 ..< length (chunks_of E)]) (chunks_of E) \<and>
            distinct (map fst (entries_of s' c)))"
proof (intro conjI impI allI)
  assume ne: "entries_of s c \<noteq> []"
  show st: "storage s' = storage s"
    by (rule index_step_skip(1) [OF ne assms])
  show "set (calls_since s s') \<subseteq> {Count c}"
    by (rule index_step_skip(2) [OF ne assms])
  from st have ne': "entries_of s' c \<noteq> []"
    using ne by (simp add: entries_of_def)
  have "storage (snd (index_step E' c s')) = storage s'"
    by (rule index_step_skip(1) [OF ne' surjective_pairing])
  then show "length (entries_of (snd (index_step E' c s')) c) = length (entries_of s' c)"
    by (simp add: entries_of_def)
next
  fix c' ds ids
  assume a: "Add c' ds ids \<in> set (calls_since s s')"
  from index_step_add [OF assms a]
  show "entries_of s c = []" "c' = c" "ds = chunks_of E" "ids = map doc_id [0 ..< length ds]"
    by simp_all
  then show "distinct ids" by (simp add: distinct_doc_ids)
next
  fix f
  assume "ReadFile f \<in> set (calls_since s s')"
  then show "entries_of s c = []" by (rule index_step_read [OF assms])
next
  assume a: "map_of (storage s) c = Some [] \<and> r = Inr ()"
  with assms have run: "index_step E c s = (Inr (), s')" by simp
  from a index_step_fill [OF _ run]
  show e: "entries_of s' c = zip (map doc_id [0 ..< length (chunks_of E)]) (chunks_of E)"
    by simp
  show "distinct (map fst (entries_of s' c))"
    unfolding e by (simp add: distinct_doc_ids)
qed

definition empty_collection_state :: app_state where
  "empty_collection_state =
     \<lparr>chroma_collection = None, gemini_model = None,
      storage = [(COLLECTION_NAME, [])], calls = []\<rparr>"

text \<open>The indexing step on an empty and on a populated collection.\<close>

theorem indexing_idempotent_witness:
  "Add COLLECTION_NAME [''Alice went to the market. Bob stayed home.''] [''doc_0'']
     \<in> set (calls_since empty_collection_state
              (snd (index_step env_ok COLLECTION_NAME empty_collection_state))) \<and>
   entries_of (snd (index_step env_ok COLLECTION_NAME empty_collection_state)) COLLECTION_NAME =
     [(''doc_0'', ''Alice went to the market. Bob stayed home.'')] \<and>
   entries_of ready_state COLLECTION_NAME \<noteq> [] \<and>
   storage (snd (index_step env_ok COLLECTION_NAME ready_state)) = storage ready_state \<and>
   length (entries_of (snd (index_step env_ok COLLECTION_NAME
             (snd (index_step env_ok COLLECTION_NAME ready_state)))) COLLECTION_NAME) =
     length (entries_of (snd (index_step env_ok COLLECTION_NAME ready_state)) COLLECTION_NAME)"
proof -
  have added: "Add COLLECTION_NAME [''Alice went to the market. Bob stayed home.''] [''doc_0'']
     \<in> set (calls_since empty_collection_state
              (snd (index_step env_ok COLLECTION_NAME empty_collection_state)))"
    by code_simp
  have ok: "map_of (storage empty_collection_state) COLLECTION_NAME = Some [] \<and>
            fst (index_step env_ok COLLECTION_NAME empty_collection_state) = Inr ()"
    by code_simp
  have chunks: "chunks_of env_ok = [''Alice went to the market. Bob stayed home.'']"
    by (simp add: chunks_of_def env_ok_def)
  have zero: "doc_id 0 = ''doc_0''"
    by code_simp
  have ne: "entries_of ready_state COLLECTION_NAME \<noteq> []"
    by (simp add: entries_of_def ready_state_def)
  from indexing_idempotent [where E = env_ok and c = COLLECTION_NAME and s = empty_collection_state,
      OF surjective_pairing]
    ok chunks zero
  have filled: "entries_of (snd (index_step env_ok COLLECTION_NAME empty_collection_state))
      COLLECTION_NAME = [(''doc_0'', ''Alice went to the market. Bob stayed home.'')]"
    by simp
  from indexing_idempotent [where E = env_ok and c = COLLECTION_NAME and s = ready_state
      and E' = env_ok, OF surjective_pairing] ne
  have "storage (snd (index_step env_ok COLLECTION_NAME ready_state)) = storage ready_state \<and>
     length (entries_of (snd (index_step env_ok COLLECTION_NAME
             (snd (index_step env_ok COLLECTION_NAME ready_state)))) COLLECTION_NAME) =
     length (entries_of (snd (index_step env_ok COLLECTION_NAME ready_state)) COLLECTION_NAME)"
    by blast
  with added filled ne show ?thesis by blast
qed

text \<open>The prompt for one retrieved chunk.\<close>

theorem prompt_context_witness:
  "chroma_collection ready_state = Some COLLECTION_NAME \<and>
   Generate alice_prompt \<in> set (calls_since ready_state
       (snd (ask_rag_question env_ok ''Where did Alice go?'' ready_state))) \<and>
   retrieved env_ok ready_state COLLECTION_NAME ''Where did Alice go?'' =
     [''Alice went to the market. Bob stayed home.''] \<and>
   alice_prompt =
     prompt_head @ ''Alice went to the market. Bob stayed home.'' @
     ''\<newline>\<newline>    Question: '' @ ''Where did Alice go?'' @ ''\<newline>\<newline>    Answer:\<newline>    ''"
proof -
  have c: "chroma_collection ready_state = Some COLLECTION_NAME"
    by (simp add: ready_state_def)
  have made: "Generate alice_prompt \<in> set (calls_since ready_state
       (snd (ask_rag_question env_ok ''Where did Alice go?'' ready_state)))"
    by code_simp
  have docs: "retrieved env_ok ready_state COLLECTION_NAME ''Where did Alice go?'' =
     [''Alice went to the market. Bob stayed home.'']"
    by (simp add: retrieved_def env_ok_def entries_of_def ready_state_def N_RESULTS_RETRIEVAL_def)
  have slot: "context_slot (context_of [''Alice went to the market. Bob stayed home.'']) =
     ''Alice went to the market. Bob stayed home.''"
    by (simp add: context_slot_def context_of_def)
  from prompt_context [of "[]" ready_state COLLECTION_NAME env_ok "''Where did Alice go?''"] c made
  have "alice_prompt =
     prompt_head @ context_slot (context_of
        (retrieved env_ok ready_state COLLECTION_NAME ''Where did Alice go?'')) @
     ''\<newline>\<newline>    Question: '' @ ''Where did Alice go?'' @ ''\<newline>\<newline>    Answer:\<newline>    ''"
    by blast
  with c made docs slot show ?thesis by simp
qed

definition later_calls :: "(env \<times> op) list" where
  "later_calls =
     [(env_ok, Ask ''Where did Alice go?''), (env_no_retrieval, GetCollection),
      (env_no_generation, Ask ''Who stayed home?''), (env_ok, GetModel),
      (env_no_retrieval, Ask ''What is the capital of France?'')]"

definition indexed_state :: app_state where
  "indexed_state = snd (get_chroma_collection env_ok fresh_state)"

definition modelled_state :: app_state where
  "modelled_state = snd (get_gemini_model env_ok fresh_state)"

text \<open>A first call on a fresh process, followed by five later calls.\<close>

theorem cached_singletons_witness:
  "get_chroma_collection env_ok fresh_state = (Inr COLLECTION_NAME, indexed_state) \<and>
   get_chroma_collection env_no_retrieval (run_ops later_calls indexed_state) =
     (Inr COLLECTION_NAME, run_ops later_calls indexed_state) \<and>
   list_all (\<lambda>x. \<not> is_indexing x) (calls_since indexed_state (run_ops later_calls indexed_state)) \<and>
   get_gemini_model env_ok fresh_state = (Inr GEMINI_MODEL, modelled_state) \<and>
   get_gemini_model env_no_retrieval (run_ops later_calls modelled_state) =
     (Inr GEMINI_MODEL, run_ops later_calls modelled_state) \<and>
   list_all (\<lambda>x. \<not> is_new_model x) (calls_since modelled_state (run_ops later_calls modelled_state))"
proof -
  have "fst (get_chroma_collection env_ok fresh_state) = Inr COLLECTION_NAME"
    by code_simp
  then have 1: "get_chroma_collection env_ok fresh_state = (Inr COLLECTION_NAME, indexed_state)"
    by (simp add: indexed_state_def prod_eq_iff)
  have "fst (get_gemini_model env_ok fresh_state) = Inr GEMINI_MODEL"
    by code_simp
  then have 2: "get_gemini_model env_ok fresh_state = (Inr GEMINI_MODEL, modelled_state)"
    by (simp add: modelled_state_def prod_eq_iff)
  from cached_singletons [of env_ok fresh_state COLLECTION_NAME indexed_state env_no_retrieval
      later_calls GEMINI_MODEL] 1
  have a: "get_chroma_collection env_no_retrieval (run_ops later_calls indexed_state) =
     (Inr COLLECTION_NAME, run_ops later_calls indexed_state) \<and>
     list_all (\<lambda>x. \<not> is_indexing x) (calls_since indexed_state (run_ops later_calls indexed_state))"
    by (simp add: list_all_iff)
  from cached_singletons [of env_ok fresh_state COLLECTION_NAME modelled_state env_no_retrieval
      later_calls GEMINI_MODEL] 2
  have b: "get_gemini_model env_no_retrieval (run_ops later_calls modelled_state) =
     (Inr GEMINI_MODEL, run_ops later_calls modelled_state) \<and>
     list_all (\<lambda>x. \<not> is_new_model x) (calls_since modelled_state (run_ops later_calls modelled_state))"
    by (simp add: list_all_iff)
  from 1 2 a b show ?thesis by blast
qed

text \<open>Five calls on a ready system with one chunk.\<close>

theorem answer_path_read_only_witness:
  "chroma_collection ready_state = Some COLLECTION_NAME \<and>
   storage (snd (ask_rag_question env_ok ''Where did Alice go?'' ready_state)) =
     storage ready_state \<and>
   storage (run_ops later_calls ready_state) = storage ready_state \<and>
   length (entries_of (run_ops later_calls ready_state) COLLECTION_NAME) = 1"
proof -
  have c: "chroma_collection ready_state = Some COLLECTION_NAME"
    by (simp add: ready_state_def)
  have n: "length (entries_of ready_state COLLECTION_NAME) = 1"
    by (simp add: entries_of_def ready_state_def)
  from answer_path_read_only [OF c, of env_ok "''Where did Alice go?''" later_calls] c n
  show ?thesis by simp
qed

section \<open>Properties of api_server.py\<close>

text \<open>A schedule is a finite run written down: which thread step or request comes next.\<close>

datatype action = Acquire | Advance env | Request env request

fun perform :: "action \<Rightarrow> server \<Rightarrow> server option" where
  "perform Acquire S = thread_acquire S"
| "perform (Advance E) S = thread_advance E S"
| "perform (Request E req) S =
     (if exit_code S = None then Some (snd (handle_request E req S)) else None)"

fun schedule :: "action list \<Rightarrow> server \<Rightarrow> server option" where
  "schedule [] S = Some S"
| "schedule (x # xs) S = (case perform x S of None \<Rightarrow> None | Some S' \<Rightarrow> schedule xs S')"

lemma perform_step: "perform x S = Some S' \<Longrightarrow> step S S'"
proof (cases x)
  case Acquire
  assume "perform x S = Some S'"
  with Acquire show ?thesis by (simp add: step.acquire)
next
  case (Advance E)
  assume "perform x S = Some S'"
  with Advance show ?thesis by (simp add: step.advance)
next
  case (Request E req)
  assume "perform x S = Some S'"
  with Request have "exit_code S = None" "handle_request E req S = (fst (handle_request E req S), S')"
    by (auto split: if_splits)
  then show ?thesis by (rule step.request)
qed

lemma schedule_reaches: "schedule xs S = Some S' \<Longrightarrow> rtranclp step S S'"
proof (induction xs arbitrary: S)
  case Nil
  then show ?case by simp
next
  case (Cons x xs)
  from Cons.prems obtain S1 where 1: "perform x S = Some S1" and 2: "schedule xs S1 = Some S'"
    by (auto split: option.splits)
  from perform_step [OF 1] Cons.IH [OF 2] show ?case
    by (rule converse_rtranclp_into_rtranclp)
qed

lemma check_rag_status_fields:
  "rag_system_ready (snd (check_rag_status S)) = rag_system_ready S"
  "rag_init_lock (snd (check_rag_status S)) = rag_init_lock S"
  "finished (snd (check_rag_status S)) = finished S"
  "attempts (snd (check_rag_status S)) = attempts S"
  "exit_code (snd (check_rag_status S)) = exit_code S"
  "waiting S \<le> waiting (snd (check_rag_status S))"
  by (simp_all add: check_rag_status_def)

lemma ask_fields:
  "rag_system_ready (snd (ask E b S)) = rag_system_ready S"
  "rag_init_lock (snd (ask E b S)) = rag_init_lock S"
  "finished (snd (ask E b S)) = finished S"
  "attempts (snd (ask E b S)) = attempts S"
  "exit_code (snd (ask E b S)) = exit_code S"
  "waiting (snd (ask E b S)) = waiting S"
  by (simp_all add: ask_def split: ask_body.splits option.splits prod.splits sum.splits)

lemma handle_request_fields:
  "rag_system_ready (snd (handle_request E req S)) = rag_system_ready S"
  "rag_init_lock (snd (handle_request E req S)) = rag_init_lock S"
  "finished (snd (handle_request E req S)) = finished S"
  "attempts (snd (handle_request E req S)) = attempts S"
  "exit_code (snd (handle_request E req S)) = exit_code S"
  "waiting S \<le> waiting (snd (handle_request E req S))"
  by (auto simp: handle_request_def check_rag_status_def ask_fields
           split: request.splits prod.splits option.splits if_splits)

lemma step_alive: "step S S' \<Longrightarrow> exit_code S = None"
  by (auto elim!: step.cases simp: thread_acquire_def thread_advance_def split: if_splits)

lemma step_keeps_ready: "step S S' \<Longrightarrow> rag_system_ready S \<Longrightarrow> rag_system_ready S'"
proof (induction rule: step.induct)
  case (acquire S S')
  then show ?case by (auto simp: thread_acquire_def split: if_splits)
next
  case (advance E S S')
  then show ?case
    by (auto simp: thread_advance_def
             split: if_splits option.splits position.splits prod.splits sum.splits)
next
  case (request S E req resp S')
  from request(2) have "S' = snd (handle_request E req S)" by simp
  with request(3) show ?case by (simp add: handle_request_fields)
qed

definition gate_invariant :: "nat \<Rightarrow> server \<Rightarrow> bool" where
  "gate_invariant n S =
     (attempts S =
        (if rag_system_ready S \<or> rag_init_lock S = Some AtCall \<or> rag_init_lock S = Some AtSet \<or>
            exit_code S \<noteq> None
         then 1 else 0) \<and>
      (rag_init_lock S = Some AtCall \<or> rag_init_lock S = Some AtSet \<or> exit_code S \<noteq> None
         \<longrightarrow> \<not> rag_system_ready S) \<and>
      (rag_init_lock S = Some AtRelease \<or> 0 < finished S \<longrightarrow> rag_system_ready S) \<and>
      (exit_code S = None \<longrightarrow>
         n \<le> waiting S + finished S + (if rag_init_lock S = None then 0 else 1)))"

lemma gate_invariant_started: "gate_invariant n (started n a)"
  by (simp add: gate_invariant_def started_def)

lemma gate_invariant_step: "step S S' \<Longrightarrow> gate_invariant n S \<Longrightarrow> gate_invariant n S'"
proof (induction rule: step.induct)
  case (acquire S S')
  then show ?case
    by (auto simp: thread_acquire_def gate_invariant_def split: if_splits)
next
  case (advance E S S')
  from advance(1) have alive: "exit_code S = None"
    by (auto simp: thread_advance_def split: if_splits)
  from advance(1) alive obtain p where p: "rag_init_lock S = Some p"
    by (auto simp: thread_advance_def split: option.splits)
  show ?case
  proof (cases p)
    case AtTest
    with advance p alive show ?thesis
      by (auto simp: thread_advance_def gate_invariant_def split: if_splits)
  next
    case AtCall
    with advance p alive show ?thesis
      by (auto simp: thread_advance_def gate_invariant_def split: if_splits prod.splits sum.splits)
  next
    case AtSet
    with advance p alive show ?thesis
      by (auto simp: thread_advance_def gate_invariant_def split: if_splits)
  next
    case AtRelease
    with advance p alive show ?thesis
      by (auto simp: thread_advance_def gate_invariant_def split: if_splits)
  qed
next
  case (request S E req resp S')
  from request(2) have S': "S' = snd (handle_request E req S)" by simp
  from request(3) handle_request_fields(6) [of S E req] show ?case
    unfolding S' gate_invariant_def
    by (auto simp add: handle_request_fields(1-5))
qed

lemma gate_invariant_reachable:
  "rtranclp step (started n a) S \<Longrightarrow> gate_invariant n S"
  by (induction rule: rtranclp_induct) (auto intro: gate_invariant_started gate_invariant_step)

text \<open>
  The collection acquisition is the branch of \<open>get_chroma_collection\<close> that runs when the
  cache is unset; it starts by opening the store. \<open>acquisitions s\<close> counts how often that
  has happened in the process so far. \<open>attempt_returned S\<close>: the call of line 23 has
  returned or raised.
\<close>

definition is_open_store :: "call \<Rightarrow> bool" where
  "is_open_store c = (case c of OpenStore _ _ \<Rightarrow> True | _ \<Rightarrow> False)"

definition acquisitions :: "app_state \<Rightarrow> nat" where
  "acquisitions s = length (filter is_open_store (calls s))"

definition attempt_returned :: "server \<Rightarrow> bool" where
  "attempt_returned S =
     (rag_system_ready S \<or> rag_init_lock S = Some AtSet \<or> exit_code S \<noteq> None)"

definition store_invariant :: "app_state \<Rightarrow> server \<Rightarrow> bool" where
  "store_invariant a S =
     ((\<not> attempt_returned S \<longrightarrow> app S = a) \<and>
      (attempt_returned S \<longrightarrow>
         acquisitions (app S) = acquisitions a + (if chroma_collection a = None then 1 else 0)) \<and>
      (rag_system_ready S \<or> rag_init_lock S = Some AtSet \<longrightarrow>
         chroma_collection (app S) \<noteq> None))"

lemma grows_acquisitions: "grows not_indexing s s' \<Longrightarrow> acquisitions s' = acquisitions s"
  by (auto simp: grows_def acquisitions_def not_indexing_def is_indexing_def is_open_store_def
        list_all_iff filter_empty_conv split: call.splits)

lemma gcc_acquisitions:
  "get_chroma_collection E s = (r, s') \<Longrightarrow>
     acquisitions s' = acquisitions s + (if chroma_collection s = None then 1 else 0)"
  by (auto simp: gcc_defs acquisitions_def is_open_store_def split: option.splits if_splits)

lemma ask_cached:
  assumes "ask_rag_question E q s = (r, s')" and "chroma_collection s = Some c"
  shows "chroma_collection s' = Some c \<and> grows not_indexing s s'"
  using ask_steady_collection [OF assms(1), of c "storage s"] assms(2)
  by (simp add: steady_def holds_collection_def)

lemma handle_request_cached:
  assumes "chroma_collection (app S) = Some c"
  shows "chroma_collection (app (snd (handle_request E req S))) = Some c"
    and "grows not_indexing (app S) (app (snd (handle_request E req S)))"
  using assms
  by (auto simp: handle_request_def check_rag_status_def ask_def grows_refl
           split: request.splits ask_body.splits option.splits prod.splits sum.splits
           dest: ask_cached)

lemma handle_request_not_ready:
  "\<not> rag_system_ready S \<Longrightarrow> app (snd (handle_request E req S)) = app S"
  by (simp add: handle_request_def check_rag_status_def)

lemma store_invariant_started: "store_invariant a (started n a)"
  by (simp add: store_invariant_def attempt_returned_def started_def)

lemma store_invariant_step:
  "step S S' \<Longrightarrow> gate_invariant n S \<Longrightarrow> store_invariant a S \<Longrightarrow> store_invariant a S'"
proof (induction rule: step.induct)
  case (acquire S S')
  then show ?case
    by (auto simp: thread_acquire_def store_invariant_def attempt_returned_def split: if_splits)
next
  case (advance E S S')
  from advance(1) have alive: "exit_code S = None"
    by (auto simp: thread_advance_def split: if_splits)
  from advance(1) alive obtain p where p: "rag_init_lock S = Some p"
    by (auto simp: thread_advance_def split: option.splits)
  show ?case
  proof (cases p)
    case AtTest
    with advance p alive show ?thesis
      by (auto simp: thread_advance_def store_invariant_def attempt_returned_def split: if_splits)
  next
    case AtCall
    with advance(2) p have unready: "\<not> rag_system_ready S"
      by (simp add: gate_invariant_def)
    with advance(3) p alive AtCall have a: "app S = a"
      by (simp add: store_invariant_def attempt_returned_def)
    obtain r a' where call: "get_chroma_collection E a = (r, a')"
      by (cases "get_chroma_collection E a")
    note n = gcc_acquisitions [OF call]
    show ?thesis
    proof (cases r)
      case (Inl e)
      with advance(1) p alive AtCall a call unready n show ?thesis
        by (auto simp: thread_advance_def store_invariant_def attempt_returned_def)
    next
      case (Inr c)
      with call have "chroma_collection a' = Some c" by (simp add: gcc_sets_cache)
      with advance(1) p alive AtCall a call unready n Inr show ?thesis
        by (auto simp: thread_advance_def store_invariant_def attempt_returned_def)
    qed
  next
    case AtSet
    with advance p alive show ?thesis
      by (auto simp: thread_advance_def store_invariant_def attempt_returned_def split: if_splits)
  next
    case AtRelease
    with advance(2) p have "rag_system_ready S" by (simp add: gate_invariant_def)
    with advance(1,3) p alive AtRelease show ?thesis
      by (auto simp: thread_advance_def store_invariant_def attempt_returned_def split: if_splits)
  qed
next
  case (request S E req resp S')
  from request(2) have S': "S' = snd (handle_request E req S)" by simp
  have same: "attempt_returned S' = attempt_returned S"
    unfolding S' by (simp add: attempt_returned_def handle_request_fields)
  show ?case
  proof (cases "rag_system_ready S")
    case False
    from handle_request_not_ready [OF False, of E req] request(4) same show ?thesis
      unfolding S' store_invariant_def by (simp add: handle_request_fields)
  next
    case True
    with request(4) obtain c where c: "chroma_collection (app S) = Some c"
      by (auto simp: store_invariant_def)
    from grows_acquisitions [OF handle_request_cached(2) [OF c, of E req]]
      handle_request_cached(1) [OF c, of E req] request(4) True same
    show ?thesis
      unfolding S' store_invariant_def
      by (simp add: handle_request_fields attempt_returned_def)
  qed
qed

lemma store_invariant_reachable:
  "rtranclp step (started n a) S \<Longrightarrow> gate_invariant n S \<and> store_invariant a S"
proof (induction rule: rtranclp_induct)
  case base
  show ?case by (simp add: gate_invariant_started store_invariant_started)
next
  case (step y z)
  from step(2,3) show ?case
    by (blast intro: gate_invariant_step store_invariant_step)
qed

definition NOT_READY :: response where
  "NOT_READY =
     \<lparr>status_code = 503,
      body = [(''message'', ''RAG system is initializing. Please try again in a moment.'')]\<rparr>"

definition env_no_store :: env where
  "env_no_store =
     env_ok\<lparr>fault := (\<lambda>c. case c of OpenStore _ _ \<Rightarrow> Some (Exception ''storage unavailable'')
                         | _ \<Rightarrow> None)\<rparr>"

text \<open>
  Claim C5. A GET of /status is answered by the \<open>before_request\<close> hook with the 503
  rejection whenever the flag is not set, and reaches \<open>status\<close> only on a ready system,
  where the body says "ready": no response to GET /status ever carries the status
  "initializing" that the \<open>else\<close> branch of \<open>status\<close> builds.
\<close>

theorem status_route_gated:
  "(\<not> rag_system_ready S \<longrightarrow> fst (handle_request E GET_status S) = NOT_READY) \<and>
   (rag_system_ready S \<longrightarrow>
      fst (handle_request E GET_status S) =
        \<lparr>status_code = 200,
         body = [(''status'', ''ready''),
                 (''message'', ''RAG system is fully initialized and operational.'')]\<rparr>) \<and>
   map_of (body (fst (handle_request E GET_status S))) ''status'' \<noteq> Some ''initializing'' \<and>
   map_of (body NOT_READY) ''status'' = None"
  by (simp add: handle_request_def check_rag_status_def status_def NOT_READY_def)

text \<open>GET /status on a process that has just started.\<close>

theorem status_route_gated_witness:
  "\<not> rag_system_ready (started 1 fresh_state) \<and>
   fst (handle_request env_ok GET_status (started 1 fresh_state)) = NOT_READY \<and>
   status_code NOT_READY = 503 \<and>
   map_of (body NOT_READY) ''status'' = None"
  using status_route_gated [of "started 1 fresh_state" env_ok]
  by (simp add: started_def NOT_READY_def)

text \<open>
  Claim C6. Readiness is monotone: from a state in which \<open>rag_system_ready\<close> is set, every
  state the process can reach, by steps of initialization threads and by requests, has it
  set.
\<close>

theorem readiness_monotone:
  "rtranclp step S S' \<Longrightarrow> rag_system_ready S \<Longrightarrow> rag_system_ready S'"
  by (induction rule: rtranclp_induct) (auto intro: step_keeps_ready)

definition first_initialization :: "action list" where
  "first_initialization =
     [Acquire, Advance env_ok, Advance env_ok, Advance env_ok, Advance env_ok]"

definition later_traffic :: "action list" where
  "later_traffic =
     [Request env_ok GET_status, Acquire,
      Request env_no_retrieval (POST_ask (JsonQuery (Some ''Where did Alice go?''))),
      Advance env_no_store, Request env_no_generation (POST_ask (JsonQuery (Some ''Who?''))),
      Advance env_no_store, Request env_ok (POST_ask NotJson)]"

definition ready_server :: server where
  "ready_server = the (schedule first_initialization (started 2 fresh_state))"

definition later_server :: server where
  "later_server = the (schedule later_traffic ready_server)"

text \<open>One thread initializes; a second thread and four requests follow.\<close>

theorem readiness_monotone_witness:
  "rtranclp step ready_server later_server \<and> rag_system_ready ready_server \<and>
   rag_system_ready later_server"
proof -
  have "schedule later_traffic ready_server = Some later_server"
    by code_simp
  then have 1: "rtranclp step ready_server later_server"
    by (rule schedule_reaches)
  have 2: "rag_system_ready ready_server"
    by code_simp
  from readiness_monotone [OF 1 2] 1 2 show ?thesis by simp
qed

text \<open>
  Claim C7. In every state reachable from a process with \<open>n\<close> started initialization
  threads, whatever requests arrive and trigger more: the \<open>try\<close> block of
  \<open>initialize_rag_system\<close> has been entered at most once, and exactly once if the system
  is ready; when no thread is left waiting or inside the block and the process is alive,
  the system is ready after exactly one attempt; a request that finds the lock held starts
  no thread; a thread that finds the flag set inside the block goes to the release without
  an attempt and without touching app.py; and a waiting or holding thread of a live
  process can always take a step. The attempt is the collection acquisition: the store
  has been opened at most as often as the \<open>try\<close> block was entered; on a ready system
  the collection is cached, after exactly one acquisition when the process started with
  the cache unset; until the call of line 23 has returned the state of app.py is the one
  the process started with; the step of the thread that stands before line 23 is the
  call of \<open>get_chroma_collection\<close>, and it is that step which performs the acquisition;
  no other step of a thread touches the state of app.py; and no request, before or after
  readiness, makes an indexing call or opens the store.
\<close>

theorem single_initialization:
  assumes "rtranclp step (started n a) S"
  shows "attempts S \<le> 1 \<and>
         (rag_system_ready S \<longrightarrow> attempts S = 1) \<and>
         (0 < n \<and> exit_code S = None \<and> waiting S = 0 \<and> rag_init_lock S = None \<longrightarrow>
            rag_system_ready S \<and> attempts S = 1) \<and>
         (rag_init_lock S \<noteq> None \<longrightarrow> waiting (snd (handle_request E req S)) = waiting S) \<and>
         (rag_system_ready S \<and> rag_init_lock S = Some AtTest \<and> exit_code S = None \<longrightarrow>
            thread_advance E S = Some (S\<lparr>rag_init_lock := Some AtRelease\<rparr>)) \<and>
         (exit_code S = None \<and> (0 < waiting S \<or> rag_init_lock S \<noteq> None) \<longrightarrow>
            thread_acquire S \<noteq> None \<or> thread_advance E S \<noteq> None) \<and>
         acquisitions (app S) \<le> acquisitions a + attempts S \<and>
         (rag_system_ready S \<longrightarrow>
            chroma_collection (app S) \<noteq> None \<and>
            (chroma_collection a = None \<longrightarrow> acquisitions (app S) = acquisitions a + 1)) \<and>
         (\<not> rag_system_ready S \<and> rag_init_lock S \<noteq> Some AtSet \<and> exit_code S = None \<longrightarrow>
            app S = a) \<and>
         (rag_init_lock S = Some AtCall \<and> exit_code S = None \<longrightarrow>
            (\<exists>S'. thread_advance E S = Some S' \<and>
                  app S' = snd (get_chroma_collection E (app S)) \<and>
                  acquisitions (app S') =
                    acquisitions a + (if chroma_collection a = None then 1 else 0))) \<and>
         (\<forall>S'. thread_acquire S = Some S' \<or>
                 (rag_init_lock S \<noteq> Some AtCall \<and> thread_advance E S = Some S') \<longrightarrow>
               app S' = app S) \<and>
         list_all not_indexing (calls_since (app S) (app (snd (handle_request E req S)))) \<and>
         acquisitions (app (snd (handle_request E req S))) = acquisitions (app S)"
proof -
  from store_invariant_reachable [OF assms]
  have inv: "gate_invariant n S" and st: "store_invariant a S" by simp_all
  have 1: "attempts S \<le> 1" using inv by (simp add: gate_invariant_def)
  have 2: "rag_system_ready S \<longrightarrow> attempts S = 1" using inv by (simp add: gate_invariant_def)
  have 3: "0 < n \<and> exit_code S = None \<and> waiting S = 0 \<and> rag_init_lock S = None \<longrightarrow>
            rag_system_ready S \<and> attempts S = 1"
    using inv by (auto simp: gate_invariant_def)
  have 4: "rag_init_lock S \<noteq> None \<longrightarrow> waiting (snd (handle_request E req S)) = waiting S"
    by (auto simp: handle_request_def check_rag_status_def ask_fields
             split: request.splits if_splits)
  have 5: "rag_system_ready S \<and> rag_init_lock S = Some AtTest \<and> exit_code S = None \<longrightarrow>
            thread_advance E S = Some (S\<lparr>rag_init_lock := Some AtRelease\<rparr>)"
    by (simp add: thread_advance_def)
  have 6: "exit_code S = None \<and> (0 < waiting S \<or> rag_init_lock S \<noteq> None) \<longrightarrow>
            thread_acquire S \<noteq> None \<or> thread_advance E S \<noteq> None"
    by (auto simp: thread_acquire_def thread_advance_def
             split: option.splits position.splits prod.splits sum.splits)
  have 7: "acquisitions (app S) \<le> acquisitions a + attempts S"
  proof (cases "attempt_returned S")
    case True
    with inv have "attempts S = 1"
      by (auto simp: gate_invariant_def attempt_returned_def)
    with st True show ?thesis by (simp add: store_invariant_def)
  next
    case False
    with st show ?thesis by (simp add: store_invariant_def)
  qed
  have 8: "rag_system_ready S \<longrightarrow>
            chroma_collection (app S) \<noteq> None \<and>
            (chroma_collection a = None \<longrightarrow> acquisitions (app S) = acquisitions a + 1)"
    using st by (simp add: store_invariant_def attempt_returned_def)
  have 9: "\<not> rag_system_ready S \<and> rag_init_lock S \<noteq> Some AtSet \<and> exit_code S = None \<longrightarrow>
            app S = a"
    using st by (simp add: store_invariant_def attempt_returned_def)
  have 10: "rag_init_lock S = Some AtCall \<and> exit_code S = None \<longrightarrow>
            (\<exists>S'. thread_advance E S = Some S' \<and>
                  app S' = snd (get_chroma_collection E (app S)) \<and>
                  acquisitions (app S') =
                    acquisitions a + (if chroma_collection a = None then 1 else 0))"
  proof
    assume h: "rag_init_lock S = Some AtCall \<and> exit_code S = None"
    with inv have "\<not> rag_system_ready S" by (simp add: gate_invariant_def)
    with st h have a: "app S = a" by (simp add: store_invariant_def attempt_returned_def)
    obtain r a' where call: "get_chroma_collection E a = (r, a')"
      by (cases "get_chroma_collection E a")
    from gcc_acquisitions [OF call] h a call
    show "\<exists>S'. thread_advance E S = Some S' \<and>
                  app S' = snd (get_chroma_collection E (app S)) \<and>
                  acquisitions (app S') =
                    acquisitions a + (if chroma_collection a = None then 1 else 0)"
      by (cases r) (simp_all add: thread_advance_def)
  qed
  have 11: "\<forall>S'. thread_acquire S = Some S' \<or>
                 (rag_init_lock S \<noteq> Some AtCall \<and> thread_advance E S = Some S') \<longrightarrow>
               app S' = app S"
    by (auto simp: thread_acquire_def thread_advance_def
             split: if_splits option.splits position.splits)
  have 12: "list_all not_indexing (calls_since (app S) (app (snd (handle_request E req S)))) \<and>
         acquisitions (app (snd (handle_request E req S))) = acquisitions (app S)"
  proof (cases "rag_system_ready S")
    case False
    then show ?thesis by (simp add: handle_request_not_ready calls_since_def)
  next
    case True
    with st obtain c where c: "chroma_collection (app S) = Some c"
      by (auto simp: store_invariant_def)
    from handle_request_cached(2) [OF c, of E req] show ?thesis
      by (simp add: grows_calls_since grows_acquisitions)
  qed
  from 1 2 3 4 5 6 7 8 9 10 11 12 show ?thesis by blast
qed


definition three_triggers :: "action list" where
  "three_triggers =
     [Request env_ok GET_status, Request env_ok (POST_ask (JsonQuery (Some ''Who?''))),
      Acquire, Request env_ok GET_status, Advance env_ok, Advance env_ok, Advance env_ok,
      Advance env_ok, Acquire, Advance env_no_store, Advance env_no_store,
      Acquire, Advance env_no_store, Advance env_no_store]"

definition settled_server :: server where
  "settled_server = the (schedule three_triggers (started 1 fresh_state))"

definition asked_server :: server where
  "asked_server =
     snd (handle_request env_ok (POST_ask (JsonQuery (Some ''Who?''))) settled_server)"

text \<open>
  The thread of line 71 and two threads started by requests that found the lock free: the
  first initializes, the other two find the flag set. The store has been opened once, and
  a question asked afterwards makes calls without opening it again.
\<close>

theorem single_initialization_witness:
  "rtranclp step (started 1 fresh_state) settled_server \<and>
   exit_code settled_server = None \<and> waiting settled_server = 0 \<and>
   rag_init_lock settled_server = None \<and> finished settled_server = 3 \<and>
   rag_system_ready settled_server \<and> attempts settled_server = 1 \<and>
   chroma_collection fresh_state = None \<and> acquisitions fresh_state = 0 \<and>
   acquisitions (app settled_server) = 1 \<and>
   acquisitions (app asked_server) = 1 \<and>
   calls (app asked_server) \<noteq> calls (app settled_server)"
proof -
  have "schedule three_triggers (started 1 fresh_state) = Some settled_server"
    by code_simp
  then have 1: "rtranclp step (started 1 fresh_state) settled_server"
    by (rule schedule_reaches)
  have 2: "exit_code settled_server = None \<and> waiting settled_server = 0 \<and>
           rag_init_lock settled_server = None \<and> finished settled_server = 3"
    by code_simp
  have 3: "chroma_collection fresh_state = None \<and> acquisitions fresh_state = 0"
    by code_simp
  have 4: "calls (app asked_server) \<noteq> calls (app settled_server)"
    by code_simp
  from single_initialization
         [OF 1, of env_ok "POST_ask (JsonQuery (Some ''Who?''))"] 2 3
  have "rag_system_ready settled_server \<and> attempts settled_server = 1 \<and>
        acquisitions (app settled_server) = 1 \<and> acquisitions (app asked_server) = 1"
    by (simp add: asked_server_def)
  with 1 2 3 4 show ?thesis by simp
qed

text \<open>
  Claim C8. When \<open>get_chroma_collection\<close> raises inside \<open>initialize_rag_system\<close>, the step
  of the thread ends the process with exit code 1 and leaves \<open>rag_system_ready\<close> as it
  was, which in a process run from its start is unset; the exited process takes no further
  step, so it serves no request and never becomes ready.
\<close>

theorem initialization_failure_exits:
  assumes "rag_init_lock S = Some AtCall" and "exit_code S = None"
    and "fst (get_chroma_collection E (app S)) = Inl e"
  shows "\<exists>S'. thread_advance E S = Some S' \<and>
              exit_code S' = Some 1 \<and>
              rag_system_ready S' = rag_system_ready S \<and>
              (\<forall>T. rtranclp step S' T \<longrightarrow> T = S') \<and>
              (\<forall>E' req. perform (Request E' req) S' = None) \<and>
              (rtranclp step (started n a) S \<longrightarrow> \<not> rag_system_ready S')"
proof -
  obtain a' where call: "get_chroma_collection E (app S) = (Inl e, a')"
    using assms(3) by (cases "get_chroma_collection E (app S)") simp
  let ?S' = "S\<lparr>app := a', exit_code := Some 1\<rparr>"
  have adv: "thread_advance E S = Some ?S'"
    using assms(1,2) call by (simp add: thread_advance_def)
  have dead: "\<And>T. \<not> step ?S' T"
    by (auto dest: step_alive)
  have stuck: "\<forall>T. rtranclp step ?S' T \<longrightarrow> T = ?S'"
    by (metis dead rtranclpD tranclpD)
  have unready: "rtranclp step (started n a) S \<longrightarrow> \<not> rag_system_ready ?S'"
  proof
    assume "rtranclp step (started n a) S"
    from gate_invariant_reachable [OF this] assms(1) show "\<not> rag_system_ready ?S'"
      by (simp add: gate_invariant_def)
  qed
  from adv stuck unready show ?thesis by auto
qed

definition calling_server :: server where
  "calling_server = the (schedule [Acquire, Advance env_no_store] (started 1 fresh_state))"

text \<open>The store cannot be opened at start-up.\<close>

theorem initialization_failure_exits_witness:
  "rag_init_lock calling_server = Some AtCall \<and> exit_code calling_server = None \<and>
   fst (get_chroma_collection env_no_store (app calling_server)) =
     Inl (Exception ''storage unavailable'') \<and>
   rtranclp step (started 1 fresh_state) calling_server \<and>
   (\<exists>S'. thread_advance env_no_store calling_server = Some S' \<and> exit_code S' = Some 1 \<and>
         \<not> rag_system_ready S' \<and> (\<forall>T. rtranclp step S' T \<longrightarrow> T = S'))"
proof -
  have 1: "rag_init_lock calling_server = Some AtCall"
    by code_simp
  have 2: "exit_code calling_server = None"
    by code_simp
  have 3: "fst (get_chroma_collection env_no_store (app calling_server)) =
     Inl (Exception ''storage unavailable'')"
    by code_simp
  have "schedule [Acquire, Advance env_no_store] (started 1 fresh_state) = Some calling_server"
    by code_simp
  then have 4: "rtranclp step (started 1 fresh_state) calling_server"
    by (rule schedule_reaches)
  from initialization_failure_exits [OF 1 2 3, of 1 fresh_state] 4
  have "\<exists>S'. thread_advance env_no_store calling_server = Some S' \<and> exit_code S' = Some 1 \<and>
         \<not> rag_system_ready S' \<and> (\<forall>T. rtranclp step S' T \<longrightarrow> T = S')"
    by blast
  with 1 2 3 4 show ?thesis by blast
qed

end
